theory Spec2Isabelle
  imports Main "HOL-Library.AList"
begin

section \<open>Data model\<close>

text \<open>
  The solver of \<^verbatim>\<open>generate.py\<close> (class \<^verbatim>\<open>CrosswordCreator\<close>) works on the classes
  \<^verbatim>\<open>Variable\<close> and \<^verbatim>\<open>Crossword\<close> of the module \<^verbatim>\<open>crossword\<close>, which it imports.

  Modelled from the spec: the class \<^verbatim>\<open>Variable\<close> (a slot) has the four attributes start
  row, start column, direction and length, and two slots are equal iff all four match.
\<close>

datatype direction = ACROSS | DOWN

datatype Variable =
  Variable (var_i: nat) (var_j: nat) (var_direction: direction) (var_length: nat)

text \<open>
  Python raises where HOL would return an unspecified value: a missing dictionary key
  (\<^verbatim>\<open>KeyError\<close>), a string index out of range (\<^verbatim>\<open>IndexError\<close>) and \<^verbatim>\<open>min\<close> of an empty
  sequence (\<^verbatim>\<open>ValueError\<close>). Every function that can raise returns \<open>error + 'a\<close>.
\<close>

datatype error = KeyError | IndexError | ValueError

text \<open>
  Modelled from the spec: the class \<^verbatim>\<open>Crossword\<close> (the puzzle model) is taken as a parameter.
  \<^item> \<open>variables\<close> and \<open>words\<close> are Python sets; a set is represented by the list of its
    elements (without repetition), in the order in which it is iterated at the moment it
    is iterated.
  \<^item> \<open>overlaps\<close> is the dictionary \<^verbatim>\<open>overlaps[x, y]\<close>: \<open>None\<close> when the key is missing,
    \<open>Some None\<close> for the value \<^verbatim>\<open>None\<close> and \<open>Some (Some (i, j))\<close> for a pair of indices.
    The indices are positions in the two slots, counted from 0, hence natural numbers.
  \<^item> \<open>neighbors\<close> is the method \<^verbatim>\<open>neighbors(var)\<close>; the set it returns is again a list in
    iteration order.
\<close>

record Crossword =
  variables :: "Variable list"
  words :: "string list"
  overlaps :: "Variable \<times> Variable \<Rightarrow> (nat \<times> nat) option option"
  neighbors :: "Variable \<Rightarrow> Variable list"

text \<open>
  \<^verbatim>\<open>self.domains\<close> is a dictionary from slots to sets of words and an assignment is a
  dictionary from slots to words. Both are association lists in insertion order; a key
  occurs once. \<^verbatim>\<open>d[k]\<close> is \<open>map_of d k\<close> (\<open>None\<close>: \<^verbatim>\<open>KeyError\<close>) and \<^verbatim>\<open>d[k] = v\<close> is
  \<open>AList.update k v d\<close>.
\<close>

type_synonym domains = "(Variable \<times> string list) list"

type_synonym assignment = "(Variable \<times> string) list"

text \<open>\<^verbatim>\<open>s -= t\<close> on sets: the elements of \<open>s\<close> that are not in \<open>t\<close>. They are listed in the
  order they had in \<open>s\<close>; that order is a choice of the model, since CPython may rebuild the
  table of the set and then iterates the elements that remain in another order.\<close>

definition set_minus :: "'a list \<Rightarrow> 'a list \<Rightarrow> 'a list" where
  "set_minus s t = filter (\<lambda>w. w \<notin> set t) s"

section \<open>The consistency engine\<close>

text \<open>\<^verbatim>\<open>CrosswordCreator.__init__\<close>: every slot starts with a copy of the whole dictionary.
  The copies are listed in the order of \<open>words\<close>; that order is a choice of the model too,
  since the copy of a set may iterate in another order than the set.\<close>

definition init_domains :: "Crossword \<Rightarrow> domains" where
  "init_domains cw = map (\<lambda>var. (var, words cw)) (variables cw)"

text \<open>\<^verbatim>\<open>enforce_node_consistency\<close>: per slot, collect the words of the wrong length, then
  remove them.\<close>

definition enforce_node_consistency :: "domains \<Rightarrow> domains" where
  "enforce_node_consistency doms =
     map (\<lambda>(var, ws).
            let to_remove = filter (\<lambda>word. length word \<noteq> var_length var) ws
            in (var, set_minus ws to_remove)) doms"

text \<open>
  The inner loop of \<^verbatim>\<open>revise\<close>: \<^verbatim>\<open>for yval in self.domains[y]: if xval[i] == yval[j]: ...
  break\<close>. \<^verbatim>\<open>xval[i]\<close> is evaluated before \<^verbatim>\<open>yval[j]\<close>, and the loop stops at the first support.
\<close>

fun supported :: "nat \<Rightarrow> nat \<Rightarrow> string \<Rightarrow> string list \<Rightarrow> error + bool" where
  "supported i j xval [] = Inr False"
| "supported i j xval (yval # ys) =
     (if length xval \<le> i then Inl IndexError
      else if length yval \<le> j then Inl IndexError
      else if xval ! i = yval ! j then Inr True
      else supported i j xval ys)"

text \<open>The outer loop of \<^verbatim>\<open>revise\<close>, which builds \<^verbatim>\<open>to_remove\<close>; \<^verbatim>\<open>self.domains[y]\<close> is
  looked up once per \<^verbatim>\<open>xval\<close>.\<close>

fun unsupported :: "domains \<Rightarrow> Variable \<Rightarrow> nat \<Rightarrow> nat \<Rightarrow> string list \<Rightarrow> error + string list" where
  "unsupported doms y i j [] = Inr []"
| "unsupported doms y i j (xval # xs) =
     (case map_of doms y of
        None \<Rightarrow> Inl KeyError
      | Some dy \<Rightarrow>
          (case supported i j xval dy of
             Inl e \<Rightarrow> Inl e
           | Inr s \<Rightarrow>
               (case unsupported doms y i j xs of
                  Inl e \<Rightarrow> Inl e
                | Inr to_remove \<Rightarrow> Inr (if s then to_remove else xval # to_remove))))"

text \<open>\<^verbatim>\<open>revise(x, y)\<close> returns the flag \<^verbatim>\<open>revised\<close> and the updated domain store.\<close>

definition revise :: "Crossword \<Rightarrow> domains \<Rightarrow> Variable \<Rightarrow> Variable \<Rightarrow> error + (bool \<times> domains)" where
  "revise cw doms x y =
     (case overlaps cw (x, y) of
        None \<Rightarrow> Inl KeyError
      | Some None \<Rightarrow> Inr (False, doms)
      | Some (Some (i, j)) \<Rightarrow>
          (case map_of doms x of
             None \<Rightarrow> Inl KeyError
           | Some dx \<Rightarrow>
               (case unsupported doms y i j dx of
                  Inl e \<Rightarrow> Inl e
                | Inr to_remove \<Rightarrow>
                    if to_remove \<noteq> []
                    then Inr (True, AList.update x (set_minus dx to_remove) doms)
                    else Inr (False, doms))))"

text \<open>The queue of \<^verbatim>\<open>ac3\<close> when \<^verbatim>\<open>arcs is None\<close>: every arc \<open>(x, y)\<close> with \<open>y\<close> a neighbor
  of \<open>x\<close>.\<close>

definition all_arcs :: "Crossword \<Rightarrow> (Variable \<times> Variable) list" where
  "all_arcs cw = concat (map (\<lambda>x. map (\<lambda>y. (x, y)) (neighbors cw x)) (variables cw))"

text \<open>The total number of words in the domain store: it bounds the revisions of \<^verbatim>\<open>ac3\<close>.\<close>

definition store_size :: "domains \<Rightarrow> nat" where
  "store_size doms = sum_list (map (\<lambda>p. length (snd p)) doms)"

text \<open>The \<^verbatim>\<open>while queue\<close> loop of \<^verbatim>\<open>ac3\<close>: \<^verbatim>\<open>queue.pop(0)\<close> takes the head,
  \<^verbatim>\<open>queue.append\<close> adds at the end.\<close>

function ac3_loop ::
  "Crossword \<Rightarrow> domains \<Rightarrow> (Variable \<times> Variable) list \<Rightarrow> error + (bool \<times> domains)" where
  "ac3_loop cw doms [] = Inr (True, doms)"
| "ac3_loop cw doms ((x, y) # queue) =
     (case revise cw doms x y of
        Inl e \<Rightarrow> Inl e
      | Inr (revised, doms') \<Rightarrow>
          if revised then
            (case map_of doms' x of
               None \<Rightarrow> Inl KeyError
             | Some dx \<Rightarrow>
                 if length dx = 0 then Inr (False, doms')
                 else ac3_loop cw doms'
                        (queue @ map (\<lambda>z. (z, x)) (removeAll y (neighbors cw x))))
          else ac3_loop cw doms' queue)"
  by pat_completeness auto

lemma unsupported_subset:
  "unsupported doms y i j xs = Inr r \<Longrightarrow> set r \<subseteq> set xs"
  by (induction xs arbitrary: r) (auto split: option.splits sum.splits if_splits)

lemma length_set_minus_less:
  "r \<noteq> [] \<Longrightarrow> set r \<subseteq> set xs \<Longrightarrow> length (set_minus xs r) < length xs"
proof -
  assume "r \<noteq> []" and sub: "set r \<subseteq> set xs"
  then obtain w where "w \<in> set r" by (cases r) auto
  with sub have "w \<in> set xs" and "\<not> (w \<notin> set r)" by auto
  then show ?thesis
    unfolding set_minus_def
    using length_filter_less [of w xs "\<lambda>w. w \<notin> set r"] by simp
qed

lemma store_size_update_less:
  "map_of doms x = Some dx \<Longrightarrow> length dx' < length dx \<Longrightarrow>
   store_size (AList.update x dx' doms) < store_size doms"
  by (induction doms) (auto simp: store_size_def split: if_splits)

lemma revise_True_size:
  assumes "revise cw doms x y = Inr (True, doms')"
  shows "store_size doms' < store_size doms"
proof -
  from assms obtain i j dx r where
    dx: "map_of doms x = Some dx" and r: "unsupported doms y i j dx = Inr r"
    and ne: "r \<noteq> []" and d': "doms' = AList.update x (set_minus dx r) doms"
    unfolding revise_def by (auto split: option.splits sum.splits if_splits)
  from r have "set r \<subseteq> set dx" by (rule unsupported_subset)
  with ne have "length (set_minus dx r) < length dx" by (rule length_set_minus_less)
  with dx show ?thesis unfolding d' by (rule store_size_update_less)
qed

lemma revise_False_same:
  "revise cw doms x y = Inr (False, doms') \<Longrightarrow> doms' = doms"
  unfolding revise_def
  by (auto split: option.splits sum.splits if_splits)

termination ac3_loop
proof (relation "measures [\<lambda>(cw, doms, queue). store_size doms,
                            \<lambda>(cw, doms, queue). length queue]")
  show "wf (measures [\<lambda>(cw :: Crossword, doms, queue :: (Variable \<times> Variable) list).
                          store_size doms,
                      \<lambda>(cw, doms, queue). length queue])"
    by simp
next
  fix cw doms x y queue r revised doms' dx
  assume "revise cw doms x y = Inr r" "(revised, doms') = r" "revised"
  then have "store_size doms' < store_size doms"
    using revise_True_size [of cw doms x y doms'] by simp
  then show "((cw, doms', queue @ map (\<lambda>z. (z, x)) (removeAll y (neighbors cw x))),
              (cw, doms, (x, y) # queue))
             \<in> measures [\<lambda>(cw, doms, queue). store_size doms,
                          \<lambda>(cw, doms, queue). length queue]"
    by simp
next
  fix cw doms x y queue r revised doms'
  assume "revise cw doms x y = Inr r" "(revised, doms') = r" "\<not> revised"
  then have "doms' = doms"
    using revise_False_same [of cw doms x y doms'] by simp
  then show "((cw, doms', queue), (cw, doms, (x, y) # queue))
             \<in> measures [\<lambda>(cw, doms, queue). store_size doms,
                          \<lambda>(cw, doms, queue). length queue]"
    by simp
qed

text \<open>\<^verbatim>\<open>ac3(arcs)\<close>: the queue is seeded with \<^verbatim>\<open>arcs\<close>, or with all arcs when it is
  \<^verbatim>\<open>None\<close>.\<close>

definition ac3 ::
  "Crossword \<Rightarrow> domains \<Rightarrow> (Variable \<times> Variable) list option \<Rightarrow> error + (bool \<times> domains)" where
  "ac3 cw doms arcs =
     ac3_loop cw doms (case arcs of Some given \<Rightarrow> given | None \<Rightarrow> all_arcs cw)"

section \<open>The search engine\<close>

text \<open>\<^verbatim>\<open>assignment_complete\<close>: as many entries as there are slots.\<close>

definition assignment_complete :: "Crossword \<Rightarrow> assignment \<Rightarrow> bool" where
  "assignment_complete cw a = (length a = length (variables cw))"

text \<open>The first loop of \<^verbatim>\<open>consistent\<close>: \<open>False\<close> at the first word of the wrong length.\<close>

fun lengths_ok :: "assignment \<Rightarrow> bool" where
  "lengths_ok [] = True"
| "lengths_ok ((var, word) # rest) =
     (if length word \<noteq> var_length var then False else lengths_ok rest)"

text \<open>The loop over \<^verbatim>\<open>self.crossword.neighbors(var)\<close> in the third part of
  \<^verbatim>\<open>consistent\<close>; \<^verbatim>\<open>word[i]\<close> is evaluated before \<^verbatim>\<open>assignment[neighbor][j]\<close>.\<close>

fun neighbors_agree ::
  "Crossword \<Rightarrow> assignment \<Rightarrow> Variable \<Rightarrow> string \<Rightarrow> Variable list \<Rightarrow> error + bool" where
  "neighbors_agree cw a var word [] = Inr True"
| "neighbors_agree cw a var word (neighbor # rest) =
     (case map_of a neighbor of
        None \<Rightarrow> neighbors_agree cw a var word rest
      | Some nword \<Rightarrow>
          (case overlaps cw (var, neighbor) of
             None \<Rightarrow> Inl KeyError
           | Some None \<Rightarrow> neighbors_agree cw a var word rest
           | Some (Some (i, j)) \<Rightarrow>
               if length word \<le> i then Inl IndexError
               else if length nword \<le> j then Inl IndexError
               else if word ! i \<noteq> nword ! j then Inr False
               else neighbors_agree cw a var word rest))"

text \<open>The loop over \<^verbatim>\<open>assignment.items()\<close> in the third part of \<^verbatim>\<open>consistent\<close>.\<close>

fun overlaps_agree :: "Crossword \<Rightarrow> assignment \<Rightarrow> assignment \<Rightarrow> error + bool" where
  "overlaps_agree cw a [] = Inr True"
| "overlaps_agree cw a ((var, word) # rest) =
     (case neighbors_agree cw a var word (neighbors cw var) of
        Inl e \<Rightarrow> Inl e
      | Inr ok \<Rightarrow> if ok then overlaps_agree cw a rest else Inr False)"

text \<open>\<^verbatim>\<open>consistent\<close>: lengths, then \<^verbatim>\<open>len(values) != len(set(values))\<close>, then the
  overlaps.\<close>

definition consistent :: "Crossword \<Rightarrow> assignment \<Rightarrow> error + bool" where
  "consistent cw a =
     (if \<not> lengths_ok a then Inr False
      else let vals = map snd a in
        if length vals \<noteq> length (remdups vals) then Inr False
        else overlaps_agree cw a a)"

text \<open>The innermost loop of \<^verbatim>\<open>conflicts_count\<close>, over the words of a neighbor's domain.\<close>

fun count_disagreements :: "nat \<Rightarrow> nat \<Rightarrow> string \<Rightarrow> string list \<Rightarrow> nat \<Rightarrow> error + nat" where
  "count_disagreements i j val [] count = Inr count"
| "count_disagreements i j val (nb_val # rest) count =
     (if length val \<le> i then Inl IndexError
      else if length nb_val \<le> j then Inl IndexError
      else count_disagreements i j val rest
             (if val ! i \<noteq> nb_val ! j then count + 1 else count))"

text \<open>The loop of \<^verbatim>\<open>conflicts_count\<close> over the neighbors of \<^verbatim>\<open>var\<close>.\<close>

fun conflicts_loop ::
  "Crossword \<Rightarrow> domains \<Rightarrow> assignment \<Rightarrow> Variable \<Rightarrow> string \<Rightarrow> Variable list \<Rightarrow> nat
   \<Rightarrow> error + nat" where
  "conflicts_loop cw doms a var val [] count = Inr count"
| "conflicts_loop cw doms a var val (nb # rest) count =
     (if map_of a nb \<noteq> None then conflicts_loop cw doms a var val rest count
      else
        (case overlaps cw (var, nb) of
           None \<Rightarrow> Inl KeyError
         | Some None \<Rightarrow> conflicts_loop cw doms a var val rest count
         | Some (Some (i, j)) \<Rightarrow>
             (case map_of doms nb of
                None \<Rightarrow> Inl KeyError
              | Some dnb \<Rightarrow>
                  (case count_disagreements i j val dnb count of
                     Inl e \<Rightarrow> Inl e
                   | Inr count' \<Rightarrow> conflicts_loop cw doms a var val rest count'))))"

definition conflicts_count ::
  "Crossword \<Rightarrow> domains \<Rightarrow> assignment \<Rightarrow> Variable \<Rightarrow> string \<Rightarrow> error + nat" where
  "conflicts_count cw doms a var val = conflicts_loop cw doms a var val (neighbors cw var) 0"

text \<open>\<^verbatim>\<open>sorted\<close> and \<^verbatim>\<open>min\<close> call their key function on the elements in order; the first
  exception ends the call. The result pairs every element with its key.\<close>

fun with_keys :: "('a \<Rightarrow> error + 'k) \<Rightarrow> 'a list \<Rightarrow> error + ('k \<times> 'a) list" where
  "with_keys f [] = Inr []"
| "with_keys f (x # xs) =
     (case f x of
        Inl e \<Rightarrow> Inl e
      | Inr k \<Rightarrow> (case with_keys f xs of Inl e \<Rightarrow> Inl e | Inr ks \<Rightarrow> Inr ((k, x) # ks)))"

text \<open>\<^verbatim>\<open>order_domain_values\<close>: \<^verbatim>\<open>sorted(list(self.domains[var]), key=conflicts_count)\<close>.
  Python's sort is stable, as \<open>sort_key\<close> is.\<close>

definition order_domain_values ::
  "Crossword \<Rightarrow> domains \<Rightarrow> Variable \<Rightarrow> assignment \<Rightarrow> error + string list" where
  "order_domain_values cw doms var a =
     (case map_of doms var of
        None \<Rightarrow> Inl KeyError
      | Some dv \<Rightarrow>
          (case with_keys (conflicts_count cw doms a var) dv of
             Inl e \<Rightarrow> Inl e
           | Inr keyed \<Rightarrow> Inr (map snd (sort_key fst keyed))))"

text \<open>The key of \<^verbatim>\<open>select_unassigned_variable\<close>:
  \<^verbatim>\<open>(len(self.domains[var]), -len(self.crossword.neighbors(var)))\<close>, and the order of
  Python tuples.\<close>

definition select_key :: "Crossword \<Rightarrow> domains \<Rightarrow> Variable \<Rightarrow> error + (nat \<times> int)" where
  "select_key cw doms var =
     (case map_of doms var of
        None \<Rightarrow> Inl KeyError
      | Some dv \<Rightarrow> Inr (length dv, - int (length (neighbors cw var))))"

definition tuple_less :: "nat \<times> int \<Rightarrow> nat \<times> int \<Rightarrow> bool" where
  "tuple_less k k' = (fst k < fst k' \<or> (fst k = fst k' \<and> snd k < snd k'))"

text \<open>\<^verbatim>\<open>min\<close> keeps the first element whose key is minimal: a later element replaces it only
  when its key is strictly smaller. On an empty sequence it raises \<^verbatim>\<open>ValueError\<close>.\<close>

fun min_by_key :: "(nat \<times> int) \<times> 'a \<Rightarrow> ((nat \<times> int) \<times> 'a) list \<Rightarrow> 'a" where
  "min_by_key best [] = snd best"
| "min_by_key best (c # cs) =
     min_by_key (if tuple_less (fst c) (fst best) then c else best) cs"

definition unassigned_variables :: "Crossword \<Rightarrow> assignment \<Rightarrow> Variable list" where
  "unassigned_variables cw a = filter (\<lambda>v. map_of a v = None) (variables cw)"

definition select_unassigned_variable ::
  "Crossword \<Rightarrow> domains \<Rightarrow> assignment \<Rightarrow> error + Variable" where
  "select_unassigned_variable cw doms a =
     (case with_keys (select_key cw doms) (unassigned_variables cw a) of
        Inl e \<Rightarrow> Inl e
      | Inr [] \<Rightarrow> Inl ValueError
      | Inr (k # ks) \<Rightarrow> Inr (min_by_key k ks))"

text \<open>
  \<^verbatim>\<open>backtrack\<close>, with its \<^verbatim>\<open>for value in self.order_domain_values(var, assignment)\<close> loop
  as the function \<open>try_values\<close>. \<open>Inr None\<close> is the result \<^verbatim>\<open>None\<close> (no solution);
  \<^verbatim>\<open>assignment.copy()\<close> followed by \<^verbatim>\<open>new_assignment[var] = value\<close> is \<open>AList.update\<close>.
\<close>

function backtrack :: "Crossword \<Rightarrow> domains \<Rightarrow> assignment \<Rightarrow> error + assignment option"
  and try_values ::
    "Crossword \<Rightarrow> domains \<Rightarrow> assignment \<Rightarrow> Variable \<Rightarrow> string list \<Rightarrow> error + assignment option"
where
  "backtrack cw doms a =
     (if assignment_complete cw a then Inr (Some a)
      else
        (case select_unassigned_variable cw doms a of
           Inl e \<Rightarrow> Inl e
         | Inr var \<Rightarrow>
             (case order_domain_values cw doms var a of
                Inl e \<Rightarrow> Inl e
              | Inr vals \<Rightarrow> try_values cw doms a var vals)))"
| "try_values cw doms a var [] = Inr None"
| "try_values cw doms a var (val # rest) =
     (let new_assignment = AList.update var val a in
      case consistent cw new_assignment of
        Inl e \<Rightarrow> Inl e
      | Inr ok \<Rightarrow>
          if ok then
            (case backtrack cw doms new_assignment of
               Inl e \<Rightarrow> Inl e
             | Inr None \<Rightarrow> try_values cw doms a var rest
             | Inr (Some result) \<Rightarrow> Inr (Some result))
          else try_values cw doms a var rest)"
  by pat_completeness auto

lemma with_keys_map_snd: "with_keys f xs = Inr ks \<Longrightarrow> map snd ks = xs"
  by (induction xs arbitrary: ks) (auto split: sum.splits)

lemma min_by_key_in: "min_by_key best cs \<in> snd ` set (best # cs)"
proof (induction cs arbitrary: best)
  case Nil
  show ?case by simp
next
  case (Cons c cs)
  have "min_by_key (if tuple_less (fst c) (fst best) then c else best) cs
          \<in> snd ` set ((if tuple_less (fst c) (fst best) then c else best) # cs)"
    by (rule Cons.IH)
  then show ?case by (auto split: if_splits)
qed

lemma select_unassigned_variable_in:
  assumes "select_unassigned_variable cw doms a = Inr var"
  shows "var \<in> set (unassigned_variables cw a)"
proof -
  from assms obtain k ks where
    wk: "with_keys (select_key cw doms) (unassigned_variables cw a) = Inr (k # ks)"
    and var: "var = min_by_key k ks"
    unfolding select_unassigned_variable_def by (auto split: sum.splits list.splits)
  have "var \<in> snd ` set (k # ks)" unfolding var by (rule min_by_key_in)
  then have "var \<in> set (map snd (k # ks))" by simp
  also have "map snd (k # ks) = unassigned_variables cw a" by (rule with_keys_map_snd [OF wk])
  finally show ?thesis .
qed

lemma length_filter_mono:
  "(\<And>x. x \<in> set xs \<Longrightarrow> Q x \<Longrightarrow> P x) \<Longrightarrow> length (filter Q xs) \<le> length (filter P xs)"
  by (induction xs) auto

lemma length_filter_strict:
  "(\<And>x. x \<in> set xs \<Longrightarrow> Q x \<Longrightarrow> P x) \<Longrightarrow> v \<in> set xs \<Longrightarrow> P v \<Longrightarrow> \<not> Q v \<Longrightarrow>
   length (filter Q xs) < length (filter P xs)"
proof (induction xs)
  case Nil
  then show ?case by simp
next
  case (Cons x xs)
  have le: "length (filter Q xs) \<le> length (filter P xs)"
    by (rule length_filter_mono) (simp add: Cons.prems(1))
  show ?case
  proof (cases "v = x")
    case True
    with Cons.prems le show ?thesis by simp
  next
    case False
    with Cons.prems have "v \<in> set xs" by simp
    then have "length (filter Q xs) < length (filter P xs)"
      using Cons.IH Cons.prems by simp
    then show ?thesis using Cons.prems(1) [of x] by auto
  qed
qed

text \<open>The slots that are still unassigned once \<open>var\<close> has a word.\<close>

definition remaining :: "Crossword \<Rightarrow> assignment \<Rightarrow> Variable \<Rightarrow> nat" where
  "remaining cw a var = length (filter (\<lambda>v. map_of a v = None \<and> v \<noteq> var) (variables cw))"

lemma unassigned_update:
  "length (unassigned_variables cw (AList.update var val a)) = remaining cw a var"
  unfolding unassigned_variables_def remaining_def
  by (rule arg_cong [where f = length], rule filter_cong) (auto simp: update_conv')

lemma remaining_less:
  assumes "var \<in> set (unassigned_variables cw a)"
  shows "remaining cw a var < length (unassigned_variables cw a)"
  unfolding remaining_def unassigned_variables_def
  using assms
  by (intro length_filter_strict [where v = var]) (auto simp: unassigned_variables_def)

termination backtrack
proof (relation "measures
    [\<lambda>s. case s of Inl (cw, doms, a) \<Rightarrow> length (unassigned_variables cw a)
                  | Inr (cw, doms, a, var, vals) \<Rightarrow> remaining cw a var,
     \<lambda>s. case s of Inl (cw, doms, a) \<Rightarrow> 0 | Inr (cw, doms, a, var, vals) \<Rightarrow> 1,
     \<lambda>s. case s of Inl (cw, doms, a) \<Rightarrow> 0 | Inr (cw, doms, a, var, vals) \<Rightarrow> length vals]")
  fix cw doms a var vals
  assume "select_unassigned_variable cw doms a = Inr var"
  then have "remaining cw a var < length (unassigned_variables cw a)"
    by (intro remaining_less select_unassigned_variable_in)
  then show "(Inr (cw, doms, a, var, vals), Inl (cw, doms, a)) \<in> measures
    [\<lambda>s. case s of Inl (cw, doms, a) \<Rightarrow> length (unassigned_variables cw a)
                  | Inr (cw, doms, a, var, vals) \<Rightarrow> remaining cw a var,
     \<lambda>s. case s of Inl (cw, doms, a) \<Rightarrow> 0 | Inr (cw, doms, a, var, vals) \<Rightarrow> 1,
     \<lambda>s. case s of Inl (cw, doms, a) \<Rightarrow> 0 | Inr (cw, doms, a, var, vals) \<Rightarrow> length vals]"
    by simp
qed (simp_all add: unassigned_update)

declare backtrack.simps [simp del]

text \<open>\<^verbatim>\<open>solve\<close>: the value of \<^verbatim>\<open>self.ac3()\<close> is not used; the search starts from the empty
  dictionary. The result is the value returned and the final domain store.\<close>

definition solve :: "Crossword \<Rightarrow> domains \<Rightarrow> error + (assignment option \<times> domains)" where
  "solve cw doms =
     (let doms1 = enforce_node_consistency doms in
      case ac3 cw doms1 None of
        Inl e \<Rightarrow> Inl e
      | Inr (arcs_ok, doms2) \<Rightarrow>
          (case backtrack cw doms2 [] of
             Inl e \<Rightarrow> Inl e
           | Inr result \<Rightarrow> Inr (result, doms2)))"

section \<open>Recording a run\<close>

text \<open>
  The run of the \<^verbatim>\<open>while queue\<close> loop of \<^verbatim>\<open>ac3\<close>, one entry per iteration: the domain store
  at the start of the iteration, the arc that \<^verbatim>\<open>queue.pop(0)\<close> returns, and the arcs that
  the iteration appends to the queue. The control flow is that of \<open>ac3_loop\<close>.
\<close>

function ac3_log ::
  "Crossword \<Rightarrow> domains \<Rightarrow> (Variable \<times> Variable) list \<Rightarrow>
   (domains \<times> (Variable \<times> Variable) \<times> (Variable \<times> Variable) list) list" where
  "ac3_log cw doms [] = []"
| "ac3_log cw doms ((x, y) # queue) =
     (case revise cw doms x y of
        Inl e \<Rightarrow> [(doms, (x, y), [])]
      | Inr (revised, doms') \<Rightarrow>
          if revised then
            (case map_of doms' x of
               None \<Rightarrow> [(doms, (x, y), [])]
             | Some dx \<Rightarrow>
                 if length dx = 0 then [(doms, (x, y), [])]
                 else (doms, (x, y), map (\<lambda>z. (z, x)) (removeAll y (neighbors cw x))) #
                      ac3_log cw doms'
                        (queue @ map (\<lambda>z. (z, x)) (removeAll y (neighbors cw x))))
          else (doms, (x, y), []) # ac3_log cw doms' queue)"
  by pat_completeness auto

termination ac3_log
proof (relation "measures [\<lambda>(cw, doms, queue). store_size doms,
                            \<lambda>(cw, doms, queue). length queue]")
  show "wf (measures [\<lambda>(cw :: Crossword, doms, queue :: (Variable \<times> Variable) list).
                          store_size doms,
                      \<lambda>(cw, doms, queue). length queue])"
    by simp
next
  fix cw doms x y queue r revised doms' dx
  assume "revise cw doms x y = Inr r" "(revised, doms') = r" "revised"
  then have "store_size doms' < store_size doms"
    using revise_True_size [of cw doms x y doms'] by simp
  then show "((cw, doms', queue @ map (\<lambda>z. (z, x)) (removeAll y (neighbors cw x))),
              (cw, doms, (x, y) # queue))
             \<in> measures [\<lambda>(cw, doms, queue). store_size doms,
                          \<lambda>(cw, doms, queue). length queue]"
    by simp
next
  fix cw doms x y queue r revised doms'
  assume "revise cw doms x y = Inr r" "(revised, doms') = r" "\<not> revised"
  then have "doms' = doms"
    using revise_False_same [of cw doms x y doms'] by simp
  then show "((cw, doms', queue), (cw, doms, (x, y) # queue))
             \<in> measures [\<lambda>(cw, doms, queue). store_size doms,
                          \<lambda>(cw, doms, queue). length queue]"
    by simp
qed

text \<open>
  The number of invocations of \<^verbatim>\<open>backtrack\<close> that a call \<^verbatim>\<open>backtrack(assignment)\<close> makes,
  itself included: the control flow of \<open>backtrack\<close> and \<open>try_values\<close>, counting the calls.
\<close>

function backtrack_calls :: "Crossword \<Rightarrow> domains \<Rightarrow> assignment \<Rightarrow> nat"
  and try_values_calls :: "Crossword \<Rightarrow> domains \<Rightarrow> assignment \<Rightarrow> Variable \<Rightarrow> string list \<Rightarrow> nat"
where
  "backtrack_calls cw doms a =
     1 + (if assignment_complete cw a then 0
          else
            (case select_unassigned_variable cw doms a of
               Inl e \<Rightarrow> 0
             | Inr var \<Rightarrow>
                 (case order_domain_values cw doms var a of
                    Inl e \<Rightarrow> 0
                  | Inr vals \<Rightarrow> try_values_calls cw doms a var vals)))"
| "try_values_calls cw doms a var [] = 0"
| "try_values_calls cw doms a var (val # rest) =
     (let new_assignment = AList.update var val a in
      case consistent cw new_assignment of
        Inl e \<Rightarrow> 0
      | Inr ok \<Rightarrow>
          if ok then
            backtrack_calls cw doms new_assignment +
            (case backtrack cw doms new_assignment of
               Inl e \<Rightarrow> 0
             | Inr None \<Rightarrow> try_values_calls cw doms a var rest
             | Inr (Some result) \<Rightarrow> 0)
          else try_values_calls cw doms a var rest)"
  by pat_completeness auto

termination backtrack_calls
proof (relation "measures
    [\<lambda>s. case s of Inl (cw, doms, a) \<Rightarrow> length (unassigned_variables cw a)
                  | Inr (cw, doms, a, var, vals) \<Rightarrow> remaining cw a var,
     \<lambda>s. case s of Inl (cw, doms, a) \<Rightarrow> 0 | Inr (cw, doms, a, var, vals) \<Rightarrow> 1,
     \<lambda>s. case s of Inl (cw, doms, a) \<Rightarrow> 0 | Inr (cw, doms, a, var, vals) \<Rightarrow> length vals]")
  fix cw doms a var vals
  assume "select_unassigned_variable cw doms a = Inr var"
  then have "remaining cw a var < length (unassigned_variables cw a)"
    by (intro remaining_less select_unassigned_variable_in)
  then show "(Inr (cw, doms, a, var, vals), Inl (cw, doms, a)) \<in> measures
    [\<lambda>s. case s of Inl (cw, doms, a) \<Rightarrow> length (unassigned_variables cw a)
                  | Inr (cw, doms, a, var, vals) \<Rightarrow> remaining cw a var,
     \<lambda>s. case s of Inl (cw, doms, a) \<Rightarrow> 0 | Inr (cw, doms, a, var, vals) \<Rightarrow> 1,
     \<lambda>s. case s of Inl (cw, doms, a) \<Rightarrow> 0 | Inr (cw, doms, a, var, vals) \<Rightarrow> length vals]"
    by simp
qed (simp_all add: unassigned_update)

declare backtrack_calls.simps [simp del]

text \<open>The number of invocations of \<^verbatim>\<open>backtrack\<close> in a call of \<^verbatim>\<open>solve\<close>: the call
  \<^verbatim>\<open>self.backtrack(dict())\<close> is reached whenever \<^verbatim>\<open>self.ac3()\<close> returns.\<close>

definition solve_backtrack_calls :: "Crossword \<Rightarrow> domains \<Rightarrow> nat" where
  "solve_backtrack_calls cw doms =
     (let doms1 = enforce_node_consistency doms in
      case ac3 cw doms1 None of
        Inl e \<Rightarrow> 0
      | Inr (ok, doms2) \<Rightarrow> backtrack_calls cw doms2 [])"

section \<open>Puzzles to run the solver on\<close>

text \<open>Two crossing slots: one across of length 3 in row 1 and one down of length 4 in
  column 2. They share the cell in row 1 and column 2, which is the last letter of the across
  slot and the second letter of the down slot.\<close>

definition ex_across :: Variable where
  "ex_across = Variable 1 0 ACROSS 3"

definition ex_down :: Variable where
  "ex_down = Variable 0 2 DOWN 4"

definition ex_overlaps :: "Variable \<times> Variable \<Rightarrow> (nat \<times> nat) option option" where
  "ex_overlaps p =
     (if p = (ex_across, ex_down) then Some (Some (2, 1))
      else if p = (ex_down, ex_across) then Some (Some (1, 2))
      else None)"

definition ex_neighbors :: "Variable \<Rightarrow> Variable list" where
  "ex_neighbors v = (if v = ex_across then [ex_down] else if v = ex_down then [ex_across] else [])"

definition ex_crossword :: "string list \<Rightarrow> Crossword" where
  "ex_crossword ws =
     \<lparr>variables = [ex_across, ex_down], words = ws,
      overlaps = ex_overlaps, neighbors = ex_neighbors\<rparr>"

text \<open>A dictionary for it.\<close>

definition ex_words :: "string list" where
  "ex_words = [''cat'', ''dog'', ''tart'', ''dodo'', ''bee'', ''stem'', ''ox'']"

lemmas ex_defs =
  ex_across_def ex_down_def ex_overlaps_def ex_neighbors_def ex_crossword_def

text \<open>Three slots of length 3: one across in row 0 and two down, in columns 0 and 2. The
  across slot shares its first letter with the first letter of the left down slot and its
  last letter with the first letter of the right down slot.\<close>

definition ex3_across :: Variable where
  "ex3_across = Variable 0 0 ACROSS 3"

definition ex3_left :: Variable where
  "ex3_left = Variable 0 0 DOWN 3"

definition ex3_right :: Variable where
  "ex3_right = Variable 0 2 DOWN 3"

definition ex3_overlaps :: "Variable \<times> Variable \<Rightarrow> (nat \<times> nat) option option" where
  "ex3_overlaps p =
     (if p = (ex3_across, ex3_left) then Some (Some (0, 0))
      else if p = (ex3_left, ex3_across) then Some (Some (0, 0))
      else if p = (ex3_across, ex3_right) then Some (Some (2, 0))
      else if p = (ex3_right, ex3_across) then Some (Some (0, 2))
      else if p = (ex3_left, ex3_right) then Some None
      else if p = (ex3_right, ex3_left) then Some None
      else None)"

definition ex3_neighbors :: "Variable \<Rightarrow> Variable list" where
  "ex3_neighbors v =
     (if v = ex3_across then [ex3_left, ex3_right]
      else if v = ex3_left then [ex3_across]
      else if v = ex3_right then [ex3_across]
      else [])"

definition ex3_crossword :: "string list \<Rightarrow> Crossword" where
  "ex3_crossword ws =
     \<lparr>variables = [ex3_across, ex3_left, ex3_right], words = ws,
      overlaps = ex3_overlaps, neighbors = ex3_neighbors\<rparr>"

definition ex3_words :: "string list" where
  "ex3_words = [''cat'', ''tea'', ''oak'']"

section \<open>Notions used in the statements\<close>

text \<open>\<open>yval\<close> supports \<open>xval\<close> when both indices are in range and the letters agree.\<close>

definition supports :: "nat \<Rightarrow> nat \<Rightarrow> string \<Rightarrow> string \<Rightarrow> bool" where
  "supports i j xval yval = (i < length xval \<and> j < length yval \<and> xval ! i = yval ! j)"

definition has_support :: "nat \<Rightarrow> nat \<Rightarrow> string \<Rightarrow> string list \<Rightarrow> bool" where
  "has_support i j xval dy = (\<exists>yval \<in> set dy. supports i j xval yval)"

text \<open>Every word of every domain has the length of its slot.\<close>

definition node_consistent :: "domains \<Rightarrow> bool" where
  "node_consistent doms = (\<forall>(var, ws) \<in> set doms. \<forall>w \<in> set ws. length w = var_length var)"

text \<open>The store \<open>doms'\<close> has the keys of \<open>doms\<close>, and every domain of \<open>doms'\<close> holds only words of
  the same slot's domain in \<open>doms\<close>: words were removed, none was added.\<close>

definition shrinks :: "domains \<Rightarrow> domains \<Rightarrow> bool" where
  "shrinks doms' doms =
     (map fst doms' = map fst doms \<and>
      (\<forall>z ws'. map_of doms' z = Some ws' \<longrightarrow> (\<exists>ws. map_of doms z = Some ws \<and> set ws' \<subseteq> set ws)))"

text \<open>
  Modelled from the spec: what a \<^verbatim>\<open>Crossword\<close> guarantees about its overlap and neighbor
  relations. A neighbor of a slot \<open>x\<close> is another slot of the puzzle, it has \<open>x\<close> as a
  neighbor, the overlap of the two is a pair of indices within the lengths of the two
  slots, and the overlap of \<open>(y, x)\<close> is the overlap of \<open>(x, y)\<close> with the indices swapped.
\<close>

definition wf_crossword :: "Crossword \<Rightarrow> bool" where
  "wf_crossword cw =
     (\<forall>x \<in> set (variables cw). \<forall>y \<in> set (neighbors cw x).
        y \<noteq> x \<and> y \<in> set (variables cw) \<and> x \<in> set (neighbors cw y) \<and>
        (case overlaps cw (x, y) of
           Some (Some (i, j)) \<Rightarrow>
             overlaps cw (y, x) = Some (Some (j, i)) \<and> i < var_length x \<and> j < var_length y
         | _ \<Rightarrow> False))"

text \<open>The arc \<open>(x, y)\<close> is consistent: every word of the domain of \<open>x\<close> has a support in the
  domain of \<open>y\<close>.\<close>

definition arc_consistent :: "Crossword \<Rightarrow> domains \<Rightarrow> Variable \<Rightarrow> Variable \<Rightarrow> bool" where
  "arc_consistent cw doms x y =
     (\<forall>i j dx. overlaps cw (x, y) = Some (Some (i, j)) \<longrightarrow> map_of doms x = Some dx \<longrightarrow>
        (\<forall>wx \<in> set dx. \<exists>dy. map_of doms y = Some dy \<and> has_support i j wx dy))"

text \<open>The invariant of the loop: an arc of the constraint graph is consistent unless it is
  in the queue.\<close>

definition ac3_inv :: "Crossword \<Rightarrow> domains \<Rightarrow> (Variable \<times> Variable) list \<Rightarrow> bool" where
  "ac3_inv cw doms queue =
     (\<forall>x \<in> set (variables cw). \<forall>y \<in> set (neighbors cw x).
        (x, y) \<in> set queue \<or> arc_consistent cw doms x y)"

text \<open>\<open>p\<close> is the first element of \<open>xs\<close> whose key is minimal: the keys before it are
  greater, the keys after it are not smaller.\<close>

definition first_min :: "(nat \<times> int) \<times> 'a \<Rightarrow> ((nat \<times> int) \<times> 'a) list \<Rightarrow> bool" where
  "first_min p xs =
     (\<exists>pre post. xs = pre @ p # post \<and>
        (\<forall>q \<in> set pre. tuple_less (fst p) (fst q)) \<and>
        (\<forall>q \<in> set post. \<not> tuple_less (fst q) (fst p)))"

text \<open>The key of slot \<open>v\<close>, when it has a domain.\<close>

definition key_of :: "Crossword \<Rightarrow> domains \<Rightarrow> Variable \<Rightarrow> nat \<times> int" where
  "key_of cw doms v =
     (case map_of doms v of None \<Rightarrow> (0, 0)
      | Some dv \<Rightarrow> (length dv, - int (length (neighbors cw v))))"

text \<open>What the search keeps of a partial assignment: its keys are slots of the puzzle,
  each once, and it has passed the consistency check.\<close>

definition checked :: "Crossword \<Rightarrow> assignment \<Rightarrow> bool" where
  "checked cw a =
     (distinct (map fst a) \<and> set (map fst a) \<subseteq> set (variables cw) \<and> consistent cw a = Inr True)"

text \<open>The arcs that a run revised, in order, and the arcs that it appended to the queue,
  in order.\<close>

definition log_arcs ::
  "(domains \<times> (Variable \<times> Variable) \<times> (Variable \<times> Variable) list) list \<Rightarrow> (Variable \<times> Variable) list"
  where "log_arcs run = map (\<lambda>s. fst (snd s)) run"

definition log_appended ::
  "(domains \<times> (Variable \<times> Variable) \<times> (Variable \<times> Variable) list) list \<Rightarrow> (Variable \<times> Variable) list"
  where "log_appended run = concat (map (\<lambda>s. snd (snd s)) run)"

section \<open>Arc revision\<close>

lemma supported_Inr:
  "supported i j xval dy = Inr b \<Longrightarrow> b = has_support i j xval dy"
  by (induction dy) (auto simp: has_support_def supports_def split: if_splits)

lemma supported_in_range:
  "i < length xval \<Longrightarrow> \<forall>w \<in> set dy. j < length w \<Longrightarrow>
   supported i j xval dy = Inr (has_support i j xval dy)"
  by (induction dy) (auto simp: has_support_def supports_def)

lemma unsupported_Inr:
  "unsupported doms y i j xs = Inr r \<Longrightarrow> map_of doms y = Some dy \<Longrightarrow>
   r = filter (\<lambda>w. \<not> has_support i j w dy) xs"
  by (induction xs arbitrary: r) (auto split: sum.splits dest: supported_Inr)

lemma unsupported_key:
  "unsupported doms y i j xs = Inr r \<Longrightarrow> xs \<noteq> [] \<Longrightarrow> map_of doms y \<noteq> None"
  by (cases xs) (auto split: option.splits)

lemma unsupported_in_range:
  "map_of doms y = Some dy \<Longrightarrow> \<forall>w \<in> set xs. i < length w \<Longrightarrow>
   \<forall>w \<in> set dy. j < length w \<Longrightarrow>
   unsupported doms y i j xs = Inr (filter (\<lambda>w. \<not> has_support i j w dy) xs)"
  by (induction xs) (auto simp: supported_in_range)

lemma set_minus_filter_not: "set_minus xs (filter (\<lambda>w. \<not> P w) xs) = filter P xs"
  unfolding set_minus_def by (rule filter_cong) auto

lemma revise_None: "overlaps cw (x, y) = Some None \<Longrightarrow> revise cw doms x y = Inr (False, doms)"
  by (simp add: revise_def)

lemma revise_Inr:
  assumes "revise cw doms x y = Inr (revised, doms')"
    and "overlaps cw (x, y) = Some (Some (i, j))"
    and "map_of doms y = Some dy"
  shows "\<exists>dx. map_of doms x = Some dx \<and>
           doms' = AList.update x (filter (\<lambda>w. has_support i j w dy) dx) doms \<and>
           revised = (\<exists>w \<in> set dx. \<not> has_support i j w dy)"
proof -
  from assms(1,2) obtain dx r where dx: "map_of doms x = Some dx"
    and r: "unsupported doms y i j dx = Inr r"
    and res: "(revised, doms') = (if r \<noteq> [] then (True, AList.update x (set_minus dx r) doms)
                                  else (False, doms))"
    unfolding revise_def by (auto split: option.splits sum.splits if_splits)
  have r_eq: "r = filter (\<lambda>w. \<not> has_support i j w dy) dx"
    using r assms(3) by (rule unsupported_Inr)
  show ?thesis
  proof (cases "r = []")
    case True
    then have all: "\<forall>w \<in> set dx. has_support i j w dy"
      unfolding r_eq by (simp add: filter_empty_conv)
    then have "filter (\<lambda>w. has_support i j w dy) dx = dx" by simp
    with True res dx all show ?thesis by (simp add: update_triv)
  next
    case False
    then have "\<exists>w \<in> set dx. \<not> has_support i j w dy"
      unfolding r_eq by (simp add: filter_empty_conv)
    with False res dx show ?thesis by (simp add: r_eq set_minus_filter_not)
  qed
qed

lemma revise_in_range:
  assumes "overlaps cw (x, y) = Some (Some (i, j))"
    and "map_of doms x = Some dx" and "map_of doms y = Some dy"
    and "\<forall>w \<in> set dx. i < length w" and "\<forall>w \<in> set dy. j < length w"
  shows "revise cw doms x y =
           Inr (\<exists>w \<in> set dx. \<not> has_support i j w dy,
                AList.update x (filter (\<lambda>w. has_support i j w dy) dx) doms)"
proof -
  have u: "unsupported doms y i j dx = Inr (filter (\<lambda>w. \<not> has_support i j w dy) dx)"
    using assms(3,4,5) by (rule unsupported_in_range)
  show ?thesis
  proof (cases "\<exists>w \<in> set dx. \<not> has_support i j w dy")
    case True
    then show ?thesis
      using assms(1,2) u by (simp add: revise_def filter_empty_conv set_minus_filter_not)
  next
    case False
    then have "filter (\<lambda>w. has_support i j w dy) dx = dx" by simp
    with False show ?thesis
      using assms(1,2) u by (simp add: revise_def filter_empty_conv update_triv)
  qed
qed

lemma revise_cases:
  assumes "revise cw doms x y = Inr (revised, doms')"
  shows "doms' = doms \<or>
         (\<exists>dx dx'. map_of doms x = Some dx \<and> doms' = AList.update x dx' doms \<and>
                    set dx' \<subseteq> set dx)"
proof -
  have sub: "set (set_minus dx r) \<subseteq> set dx" for dx r :: "string list"
    unfolding set_minus_def by auto
  show ?thesis
  proof (cases "overlaps cw (x, y)")
    case None
    with assms show ?thesis by (simp add: revise_def)
  next
    case (Some ov)
    show ?thesis
    proof (cases ov)
      case None
      with Some assms show ?thesis by (simp add: revise_def)
    next
      case (Some ij)
      obtain i j where ij: "ij = (i, j)" by (cases ij)
      have ov: "overlaps cw (x, y) = Some (Some (i, j))"
        using \<open>overlaps cw (x, y) = Some ov\<close> Some ij by simp
      show ?thesis
      proof (cases "map_of doms x")
        case None
        with ov assms show ?thesis by (simp add: revise_def)
      next
        case dx: (Some dx)
        show ?thesis
        proof (cases "unsupported doms y i j dx")
          case (Inl e)
          with ov dx assms show ?thesis by (simp add: revise_def)
        next
          case (Inr r)
          show ?thesis
          proof (cases "r = []")
            case True
            with ov dx Inr assms show ?thesis by (simp add: revise_def)
          next
            case False
            with ov dx Inr assms have "doms' = AList.update x (set_minus dx r) doms"
              by (simp add: revise_def)
            with dx sub [of dx r] show ?thesis by blast
          qed
        qed
      qed
    qed
  qed
qed

lemma update_existing_keys:
  "map_of al k = Some v \<Longrightarrow> map fst (AList.update k v' al) = map fst al"
  by (auto simp: update_keys dest: map_of_SomeD intro: rev_image_eqI)

text \<open>
  C4. If \<^verbatim>\<open>overlaps[x, y]\<close> is \<^verbatim>\<open>None\<close>, \<^verbatim>\<open>revise(x, y)\<close> returns \<^verbatim>\<open>False\<close> and leaves the
  domain store as it is. If it is a pair \<open>(i, j)\<close> (and the indices are in range for the
  words of the two domains, as they are in a well-formed puzzle after node consistency),
  \<^verbatim>\<open>revise(x, y)\<close> returns, the new domain of \<open>x\<close> holds exactly the words of the old one
  that have a supporting word in the domain of \<open>y\<close>, and the value returned is \<^verbatim>\<open>True\<close> iff
  some word was removed.
\<close>

theorem revise_removes_exactly_unsupported:
  "(overlaps cw (x, y) = Some None \<longrightarrow> revise cw doms x y = Inr (False, doms)) \<and>
   (overlaps cw (x, y) = Some (Some (i, j)) \<and>
    map_of doms x = Some dx \<and> map_of doms y = Some dy \<and>
    (\<forall>w \<in> set dx. i < length w) \<and> (\<forall>w \<in> set dy. j < length w) \<longrightarrow>
    (\<exists>revised doms' dx'.
        revise cw doms x y = Inr (revised, doms') \<and>
        map_of doms' x = Some dx' \<and>
        dx' = filter (\<lambda>wx. \<exists>wy \<in> set dy. wx ! i = wy ! j) dx \<and>
        (revised \<longleftrightarrow> (\<exists>wx \<in> set dx. wx \<notin> set dx'))))"
proof (intro conjI impI)
  assume "overlaps cw (x, y) = Some None"
  then show "revise cw doms x y = Inr (False, doms)" by (rule revise_None)
next
  assume h: "overlaps cw (x, y) = Some (Some (i, j)) \<and>
    map_of doms x = Some dx \<and> map_of doms y = Some dy \<and>
    (\<forall>w \<in> set dx. i < length w) \<and> (\<forall>w \<in> set dy. j < length w)"
  let ?kept = "filter (\<lambda>wx. \<exists>wy \<in> set dy. wx ! i = wy ! j) dx"
  have plain: "has_support i j w dy \<longleftrightarrow> (\<exists>wy \<in> set dy. w ! i = wy ! j)" if "w \<in> set dx" for w
    using h that by (auto simp: has_support_def supports_def)
  have kept: "filter (\<lambda>w. has_support i j w dy) dx = ?kept"
    by (rule filter_cong) (simp_all add: plain)
  have "revise cw doms x y =
          Inr (\<exists>w \<in> set dx. \<not> has_support i j w dy, AList.update x ?kept doms)"
    using h revise_in_range [of cw x y i j doms dx dy] by (simp add: kept)
  moreover have "map_of (AList.update x ?kept doms) x = Some ?kept"
    by (simp add: update_conv')
  moreover have "(\<exists>w \<in> set dx. \<not> has_support i j w dy) \<longleftrightarrow> (\<exists>wx \<in> set dx. wx \<notin> set ?kept)"
    using plain by auto
  ultimately show "\<exists>revised doms' dx'.
        revise cw doms x y = Inr (revised, doms') \<and>
        map_of doms' x = Some dx' \<and>
        dx' = ?kept \<and>
        (revised \<longleftrightarrow> (\<exists>wx \<in> set dx. wx \<notin> set dx'))"
    by simp
qed

theorem revise_removes_exactly_unsupported_witness:
  "\<exists>revised doms'.
     revise (ex_crossword []) [(ex_across, [''cat'', ''dog'', ''bee'']), (ex_down, [''tart'', ''dodo'', ''stem''])]
       ex_across ex_down = Inr (revised, doms') \<and>
     map_of doms' ex_across = Some [''cat''] \<and> revised"
  using revise_removes_exactly_unsupported
    [of "ex_crossword []" ex_across ex_down
        "[(ex_across, [''cat'', ''dog'', ''bee'']), (ex_down, [''tart'', ''dodo'', ''stem''])]"
        2 1 "[''cat'', ''dog'', ''bee'']" "[''tart'', ''dodo'', ''stem'']"]
  by (simp add: ex_defs)

text \<open>
  C10. A call \<^verbatim>\<open>revise(x, y)\<close> that returns changes at most the entry of \<open>x\<close> in the domain
  store: the keys are the same, and the domain of every slot other than \<open>x\<close> is the same.
  (An exception is raised before the store is written.)
\<close>

theorem revise_frame:
  "revise cw doms x y = Inr (revised, doms') \<Longrightarrow>
   map fst doms' = map fst doms \<and> (\<forall>z. z \<noteq> x \<longrightarrow> map_of doms' z = map_of doms z)"
  by (drule revise_cases) (auto simp: update_conv' update_existing_keys)

theorem revise_frame_witness:
  "revise (ex_crossword []) [(ex_across, [''cat'', ''dog'', ''bee'']), (ex_down, [''tart'', ''dodo'', ''stem''])]
     ex_across ex_down
   = Inr (True, [(ex_across, [''cat'']), (ex_down, [''tart'', ''dodo'', ''stem''])]) \<and>
   map_of [(ex_across, [''cat'']), (ex_down, [''tart'', ''dodo'', ''stem''])] ex_down
   = map_of [(ex_across, [''cat'', ''dog'', ''bee'']), (ex_down, [''tart'', ''dodo'', ''stem''])] ex_down"
proof -
  have r: "revise (ex_crossword [])
             [(ex_across, [''cat'', ''dog'', ''bee'']), (ex_down, [''tart'', ''dodo'', ''stem''])]
             ex_across ex_down
           = Inr (True, [(ex_across, [''cat'']), (ex_down, [''tart'', ''dodo'', ''stem''])])"
    by (simp add: revise_def set_minus_def ex_defs)
  from revise_frame [OF r] have
    "map_of [(ex_across, [''cat'']), (ex_down, [''tart'', ''dodo'', ''stem''])] ex_down
     = map_of [(ex_across, [''cat'', ''dog'', ''bee'']), (ex_down, [''tart'', ''dodo'', ''stem''])] ex_down"
    by (simp add: ex_defs)
  with r show ?thesis by simp
qed

section \<open>Node consistency and the domain store\<close>

lemma shrinks_refl: "shrinks doms doms"
  by (simp add: shrinks_def)

lemma shrinks_trans: "shrinks d3 d2 \<Longrightarrow> shrinks d2 d1 \<Longrightarrow> shrinks d3 d1"
proof -
  assume a: "shrinks d3 d2" and b: "shrinks d2 d1"
  have "\<exists>ws. map_of d1 z = Some ws \<and> set ws' \<subseteq> set ws" if "map_of d3 z = Some ws'" for z ws'
  proof -
    from a that obtain ws2 where "map_of d2 z = Some ws2" "set ws' \<subseteq> set ws2"
      unfolding shrinks_def by blast
    moreover from b this(1) obtain ws1 where "map_of d1 z = Some ws1" "set ws2 \<subseteq> set ws1"
      unfolding shrinks_def by blast
    ultimately show ?thesis by auto
  qed
  moreover from a b have "map fst d3 = map fst d1" unfolding shrinks_def by simp
  ultimately show ?thesis unfolding shrinks_def by blast
qed

lemma node_consistent_enforce: "node_consistent (enforce_node_consistency doms)"
  by (auto simp: node_consistent_def enforce_node_consistency_def set_minus_def)

lemma node_consistent_update:
  "node_consistent doms \<Longrightarrow> map_of doms x = Some dx \<Longrightarrow> set dx' \<subseteq> set dx \<Longrightarrow>
   node_consistent (AList.update x dx' doms)"
  by (induction doms) (auto simp: node_consistent_def split: if_splits)

lemma shrinks_update:
  "map_of doms x = Some dx \<Longrightarrow> set dx' \<subseteq> set dx \<Longrightarrow> shrinks (AList.update x dx' doms) doms"
  by (auto simp: shrinks_def update_existing_keys update_conv')

lemma revise_node_consistent:
  "revise cw doms x y = Inr (revised, doms') \<Longrightarrow> node_consistent doms \<Longrightarrow> node_consistent doms'"
  by (drule revise_cases) (auto intro: node_consistent_update)

lemma revise_shrinks:
  "revise cw doms x y = Inr (revised, doms') \<Longrightarrow> shrinks doms' doms"
  by (drule revise_cases) (auto intro: shrinks_update shrinks_refl)

lemma ac3_loop_shrinks:
  "ac3_loop cw doms queue = Inr (ok, doms') \<Longrightarrow>
   shrinks doms' doms \<and> (node_consistent doms \<longrightarrow> node_consistent doms')"
proof (induction cw doms queue rule: ac3_loop.induct)
  case (1 cw doms)
  then show ?case by (simp add: shrinks_refl)
next
  case (2 cw doms x y queue)
  from "2.prems" obtain revised doms1 where
    rev: "revise cw doms x y = Inr (revised, doms1)"
    by (auto split: sum.splits)
  have step: "shrinks doms1 doms" "node_consistent doms \<longrightarrow> node_consistent doms1"
    using rev by (auto intro: revise_shrinks revise_node_consistent)
  show ?case
  proof (cases revised)
    case False
    with rev "2.prems" have "ac3_loop cw doms1 queue = Inr (ok, doms')" by simp
    with "2.IH"(2) [OF rev refl] False
    have "shrinks doms' doms1 \<and> (node_consistent doms1 \<longrightarrow> node_consistent doms')" by simp
    with step show ?thesis by (blast intro: shrinks_trans)
  next
    case True
    with rev "2.prems" obtain dx where dx: "map_of doms1 x = Some dx"
      by (auto split: option.splits)
    show ?thesis
    proof (cases "length dx = 0")
      case empty: True
      with rev True dx "2.prems" have "doms' = doms1" by simp
      with step show ?thesis by simp
    next
      case nonempty: False
      with rev True dx "2.prems" have
        "ac3_loop cw doms1 (queue @ map (\<lambda>z. (z, x)) (removeAll y (neighbors cw x)))
           = Inr (ok, doms')" by simp
      with "2.IH"(1) [OF rev refl True dx nonempty]
      have "shrinks doms' doms1 \<and> (node_consistent doms1 \<longrightarrow> node_consistent doms')" by simp
      with step show ?thesis by (blast intro: shrinks_trans)
    qed
  qed
qed

lemma solve_Inr:
  assumes "solve cw doms = Inr (result, doms')"
  shows "\<exists>ok. ac3 cw (enforce_node_consistency doms) None = Inr (ok, doms') \<and>
              backtrack cw doms' [] = Inr result"
proof (cases "ac3 cw (enforce_node_consistency doms) None")
  case (Inl e)
  with assms show ?thesis by (simp add: solve_def)
next
  case (Inr r)
  obtain ok doms2 where r: "r = (ok, doms2)" by (cases r)
  from assms Inr r have "doms' = doms2 \<and> backtrack cw doms2 [] = Inr result"
    by (cases "backtrack cw doms2 []") (simp_all add: solve_def)
  with Inr r show ?thesis by simp
qed

text \<open>
  C6. After \<^verbatim>\<open>enforce_node_consistency\<close> every word of every domain has the length of its
  slot. \<^verbatim>\<open>revise\<close> and \<^verbatim>\<open>ac3\<close> only remove words from the domains, so they keep that
  invariant; \<^verbatim>\<open>backtrack\<close> and the functions it calls never write \<^verbatim>\<open>self.domains\<close>, so the
  store at the end of \<^verbatim>\<open>solve\<close> is the one \<^verbatim>\<open>ac3\<close> left, and it has the invariant too.
\<close>

theorem node_consistency_kept:
  "node_consistent (enforce_node_consistency d_init) \<and>
   (revise cw doms x y = Inr (revised, d_rev) \<longrightarrow>
      shrinks d_rev doms \<and> (node_consistent doms \<longrightarrow> node_consistent d_rev)) \<and>
   (ac3 cw doms arcs = Inr (ok, d_ac) \<longrightarrow>
      shrinks d_ac doms \<and> (node_consistent doms \<longrightarrow> node_consistent d_ac)) \<and>
   (solve cw d_init = Inr (result, d_end) \<longrightarrow>
      shrinks d_end (enforce_node_consistency d_init) \<and> node_consistent d_end)"
proof (intro conjI impI)
  show "node_consistent (enforce_node_consistency d_init)" by (rule node_consistent_enforce)
next
  assume "revise cw doms x y = Inr (revised, d_rev)"
  then show "shrinks d_rev doms" by (rule revise_shrinks)
next
  assume "revise cw doms x y = Inr (revised, d_rev)" "node_consistent doms"
  then show "node_consistent d_rev" by (rule revise_node_consistent)
next
  assume "ac3 cw doms arcs = Inr (ok, d_ac)"
  then show "shrinks d_ac doms" unfolding ac3_def by (simp add: ac3_loop_shrinks)
next
  assume "ac3 cw doms arcs = Inr (ok, d_ac)" "node_consistent doms"
  then show "node_consistent d_ac" unfolding ac3_def using ac3_loop_shrinks by blast
next
  assume "solve cw d_init = Inr (result, d_end)"
  then obtain ok' where "ac3 cw (enforce_node_consistency d_init) None = Inr (ok', d_end)"
    using solve_Inr by blast
  then have *: "shrinks d_end (enforce_node_consistency d_init) \<and>
    (node_consistent (enforce_node_consistency d_init) \<longrightarrow> node_consistent d_end)"
    unfolding ac3_def by (rule ac3_loop_shrinks)
  from * show "shrinks d_end (enforce_node_consistency d_init)" by simp
  from * show "node_consistent d_end" by (simp add: node_consistent_enforce)
qed

theorem node_consistency_kept_witness:
  "node_consistent (enforce_node_consistency (init_domains (ex_crossword ex_words))) \<and>
   revise (ex_crossword ex_words)
     (enforce_node_consistency (init_domains (ex_crossword ex_words))) ex_across ex_down
     = Inr (True, [(ex_across, [''cat'']), (ex_down, [''tart'', ''dodo'', ''stem''])]) \<and>
   node_consistent [(ex_across, [''cat'']), (ex_down, [''tart'', ''dodo'', ''stem''])] \<and>
   ac3 (ex_crossword ex_words)
     (enforce_node_consistency (init_domains (ex_crossword ex_words))) None
     = Inr (True, [(ex_across, [''cat'']), (ex_down, [''stem''])]) \<and>
   solve (ex_crossword ex_words) (init_domains (ex_crossword ex_words))
     = Inr (Some [(ex_across, ''cat''), (ex_down, ''stem'')],
            [(ex_across, [''cat'']), (ex_down, [''stem''])]) \<and>
   node_consistent [(ex_across, [''cat'']), (ex_down, [''stem''])]"
proof -
  let ?cw = "ex_crossword ex_words"
  let ?d = "enforce_node_consistency (init_domains ?cw)"
  have r: "revise ?cw ?d ex_across ex_down
             = Inr (True, [(ex_across, [''cat'']), (ex_down, [''tart'', ''dodo'', ''stem''])])"
    by code_simp
  have a: "ac3 ?cw ?d None = Inr (True, [(ex_across, [''cat'']), (ex_down, [''stem''])])"
    by code_simp
  have s: "solve ?cw (init_domains ?cw)
             = Inr (Some [(ex_across, ''cat''), (ex_down, ''stem'')],
                    [(ex_across, [''cat'']), (ex_down, [''stem''])])"
    by code_simp
  from node_consistency_kept
    [of "init_domains ?cw" ?cw ?d ex_across ex_down True
        "[(ex_across, [''cat'']), (ex_down, [''tart'', ''dodo'', ''stem''])]"
        None True "[(ex_across, [''cat'']), (ex_down, [''stem''])]"
        "Some [(ex_across, ''cat''), (ex_down, ''stem'')]"
        "[(ex_across, [''cat'']), (ex_down, [''stem''])]"]
  show ?thesis using r a s by simp
qed

section \<open>The AC-3 loop\<close>

lemma revise_True_domain:
  assumes "revise cw doms x y = Inr (True, doms')"
  shows "\<exists>dx'. map_of doms' x = Some dx'"
proof -
  from revise_True_size [OF assms] have "doms' \<noteq> doms" by auto
  with revise_cases [OF assms] show ?thesis by (auto simp: update_conv')
qed

text \<open>The four ways an iteration of the loop can go, as an induction rule.\<close>

lemma ac3_run_induct [case_names Nil Error Same Empty Narrowed]:
  assumes nil: "\<And>cw doms. P cw doms []"
    and err: "\<And>cw doms x y queue e. revise cw doms x y = Inl e \<Longrightarrow> P cw doms ((x, y) # queue)"
    and same: "\<And>cw doms x y queue.
        revise cw doms x y = Inr (False, doms) \<Longrightarrow> P cw doms queue \<Longrightarrow>
        P cw doms ((x, y) # queue)"
    and empty: "\<And>cw doms x y queue doms'.
        revise cw doms x y = Inr (True, doms') \<Longrightarrow> map_of doms' x = Some [] \<Longrightarrow>
        P cw doms ((x, y) # queue)"
    and narrowed: "\<And>cw doms x y queue doms' dx.
        revise cw doms x y = Inr (True, doms') \<Longrightarrow> map_of doms' x = Some dx \<Longrightarrow> dx \<noteq> [] \<Longrightarrow>
        P cw doms' (queue @ map (\<lambda>z. (z, x)) (removeAll y (neighbors cw x))) \<Longrightarrow>
        P cw doms ((x, y) # queue)"
  shows "P cw doms queue"
proof (induction cw doms queue rule: ac3_loop.induct)
  case (1 cw doms)
  show ?case by (rule nil)
next
  case (2 cw doms x y queue)
  show ?case
  proof (cases "revise cw doms x y")
    case (Inl e)
    then show ?thesis by (rule err)
  next
    case (Inr r)
    obtain revised doms' where r: "r = (revised, doms')" by (cases r)
    show ?thesis
    proof (cases revised)
      case False
      with Inr r have "doms' = doms" by (simp add: revise_False_same)
      with Inr r False have rev: "revise cw doms x y = Inr (False, doms)" by simp
      from "2.IH"(2) [OF Inr r [symmetric] False] \<open>doms' = doms\<close>
      have "P cw doms queue" by simp
      with rev show ?thesis by (rule same)
    next
      case True
      with Inr r have rev: "revise cw doms x y = Inr (True, doms')" by simp
      then obtain dx where dx: "map_of doms' x = Some dx"
        using revise_True_domain by blast
      show ?thesis
      proof (cases "dx = []")
        case True
        with rev dx show ?thesis by (intro empty) simp_all
      next
        case False
        then have "length dx \<noteq> 0" by simp
        from "2.IH"(1) [OF Inr r [symmetric] True dx this]
        show ?thesis using rev dx False by (intro narrowed)
      qed
    qed
  qed
qed

lemma ac3_step_Error:
  assumes "revise cw doms x y = Inl e"
  shows "ac3_loop cw doms ((x, y) # queue) = Inl e"
    and "ac3_log cw doms ((x, y) # queue) = [(doms, (x, y), [])]"
  using assms by simp_all

lemma ac3_step_Same:
  assumes "revise cw doms x y = Inr (False, doms)"
  shows "ac3_loop cw doms ((x, y) # queue) = ac3_loop cw doms queue"
    and "ac3_log cw doms ((x, y) # queue) = (doms, (x, y), []) # ac3_log cw doms queue"
  using assms by simp_all

lemma ac3_step_Empty:
  assumes "revise cw doms x y = Inr (True, doms')" "map_of doms' x = Some []"
  shows "ac3_loop cw doms ((x, y) # queue) = Inr (False, doms')"
    and "ac3_log cw doms ((x, y) # queue) = [(doms, (x, y), [])]"
  using assms by simp_all

lemma ac3_step_Narrowed:
  assumes "revise cw doms x y = Inr (True, doms')" "map_of doms' x = Some dx" "dx \<noteq> []"
  shows "ac3_loop cw doms ((x, y) # queue) =
           ac3_loop cw doms' (queue @ map (\<lambda>z. (z, x)) (removeAll y (neighbors cw x)))"
    and "ac3_log cw doms ((x, y) # queue) =
           (doms, (x, y), map (\<lambda>z. (z, x)) (removeAll y (neighbors cw x))) #
           ac3_log cw doms' (queue @ map (\<lambda>z. (z, x)) (removeAll y (neighbors cw x)))"
  using assms by simp_all

lemmas ac3_steps = ac3_step_Error ac3_step_Same ac3_step_Empty ac3_step_Narrowed

text \<open>First in, first out: the arcs are revised in the order in which they entered the
  queue.\<close>

lemma ac3_log_fifo:
  "\<exists>rest. queue @ concat (map (\<lambda>s. snd (snd s)) (ac3_log cw doms queue))
           = map (\<lambda>s. fst (snd s)) (ac3_log cw doms queue) @ rest"
proof (induction cw doms queue rule: ac3_run_induct)
  case (Nil cw doms)
  show ?case by simp
next
  case (Error cw doms x y queue e)
  then show ?case by (simp add: ac3_steps)
next
  case (Same cw doms x y queue)
  then show ?case by (simp add: ac3_steps)
next
  case (Empty cw doms x y queue doms')
  then show ?case by (simp add: ac3_steps)
next
  case (Narrowed cw doms x y queue doms' dx)
  then show ?case by (simp add: ac3_steps)
qed

lemma ac3_log_True:
  "ac3_loop cw doms queue = Inr (True, d_end) \<Longrightarrow>
   map (\<lambda>s. fst (snd s)) (ac3_log cw doms queue)
     = queue @ concat (map (\<lambda>s. snd (snd s)) (ac3_log cw doms queue))"
proof (induction cw doms queue rule: ac3_run_induct)
  case (Nil cw doms)
  show ?case by simp
next
  case (Error cw doms x y queue e)
  then show ?case by (simp add: ac3_steps)
next
  case (Same cw doms x y queue)
  then show ?case by (simp add: ac3_steps)
next
  case (Empty cw doms x y queue doms')
  then show ?case by (simp add: ac3_steps)
next
  case (Narrowed cw doms x y queue doms' dx)
  then show ?case by (simp add: ac3_steps)
qed

lemma ac3_log_False:
  "ac3_loop cw doms queue = Inr (False, d_end) \<Longrightarrow>
   \<exists>pre d x y. ac3_log cw doms queue = pre @ [(d, (x, y), [])] \<and>
      revise cw d x y = Inr (True, d_end) \<and> map_of d_end x = Some []"
proof (induction cw doms queue rule: ac3_run_induct)
  case (Nil cw doms)
  then show ?case by simp
next
  case (Error cw doms x y queue e)
  then show ?case by (simp add: ac3_steps)
next
  case (Same cw doms x y queue)
  then obtain pre d x' y' where
    "ac3_log cw doms queue = pre @ [(d, (x', y'), [])]"
    "revise cw d x' y' = Inr (True, d_end)" "map_of d_end x' = Some []"
    by (auto simp: ac3_steps)
  with Same(1) show ?case
    by (intro exI [of _ "(doms, (x, y), []) # pre"] exI [of _ d] exI [of _ x'] exI [of _ y'])
       (simp add: ac3_steps)
next
  case (Empty cw doms x y queue doms')
  then have "d_end = doms'" by (simp add: ac3_steps)
  with Empty show ?case
    by (intro exI [of _ "[]"] exI [of _ doms] exI [of _ x] exI [of _ y]) (simp add: ac3_steps)
next
  case (Narrowed cw doms x y queue doms' dx)
  let ?new = "map (\<lambda>z. (z, x)) (removeAll y (neighbors cw x))"
  from Narrowed obtain pre d x' y' where
    "ac3_log cw doms' (queue @ ?new) = pre @ [(d, (x', y'), [])]"
    "revise cw d x' y' = Inr (True, d_end)" "map_of d_end x' = Some []"
    by (auto simp: ac3_steps)
  with Narrowed(1,2,3) show ?case
    by (intro exI [of _ "(doms, (x, y), ?new) # pre"] exI [of _ d] exI [of _ x'] exI [of _ y'])
       (simp add: ac3_steps)
qed

lemma removeAll_as_filter: "removeAll y zs = filter (\<lambda>z. z \<noteq> y) zs"
  by (induction zs) auto

text \<open>What an iteration appends to the queue.\<close>

lemma ac3_log_entry:
  "(d, (x, y), new) \<in> set (ac3_log cw doms queue) \<Longrightarrow>
   (\<forall>e. revise cw d x y = Inl e \<longrightarrow> new = []) \<and>
   (\<forall>revised d'. revise cw d x y = Inr (revised, d') \<longrightarrow>
      new = (if revised \<and> map_of d' x \<noteq> Some []
             then map (\<lambda>z. (z, x)) (filter (\<lambda>z. z \<noteq> y) (neighbors cw x)) else []))"
proof (induction cw doms queue rule: ac3_run_induct)
  case (Nil cw doms)
  then show ?case by simp
next
  case (Error cw doms x0 y0 queue e)
  then show ?case by (auto simp: ac3_steps)
next
  case (Same cw doms x0 y0 queue)
  from Same(3) have "(d, (x, y), new) = (doms, (x0, y0), []) \<or>
      (d, (x, y), new) \<in> set (ac3_log cw doms queue)"
    by (simp add: Same(1))
  then show ?case
  proof
    assume "(d, (x, y), new) = (doms, (x0, y0), [])"
    with Same(1) show ?thesis by simp
  next
    assume "(d, (x, y), new) \<in> set (ac3_log cw doms queue)"
    then show ?thesis by (rule Same(2))
  qed
next
  case (Empty cw doms x0 y0 queue doms')
  from Empty(3) have "(d, (x, y), new) = (doms, (x0, y0), [])"
    by (simp add: Empty(1,2))
  with Empty(1,2) show ?case by simp
next
  case (Narrowed cw doms x0 y0 queue doms' dx)
  let ?new = "map (\<lambda>z. (z, x0)) (removeAll y0 (neighbors cw x0))"
  from Narrowed(5) have "(d, (x, y), new) = (doms, (x0, y0), ?new) \<or>
      (d, (x, y), new) \<in> set (ac3_log cw doms' (queue @ ?new))"
    by (simp add: Narrowed(1,2,3))
  then show ?case
  proof
    assume "(d, (x, y), new) = (doms, (x0, y0), ?new)"
    with Narrowed(1,2,3) show ?thesis by (simp add: removeAll_as_filter)
  next
    assume "(d, (x, y), new) \<in> set (ac3_log cw doms' (queue @ ?new))"
    then show ?thesis by (rule Narrowed(4))
  qed
qed

text \<open>The iteration in which \<^verbatim>\<open>revise\<close> empties a domain is the last one.\<close>

lemma ac3_log_stops:
  "ac3_log cw doms queue = pre @ (d, (x, y), new) # post \<Longrightarrow>
   revise cw d x y = Inr (True, d') \<Longrightarrow> map_of d' x = Some [] \<Longrightarrow>
   post = [] \<and> ac3_loop cw doms queue = Inr (False, d')"
proof (induction cw doms queue arbitrary: pre rule: ac3_run_induct)
  case (Nil cw doms)
  then show ?case by simp
next
  case (Error cw doms x0 y0 queue e)
  from Error(2) have "pre = [] \<and> (d, (x, y), new) = (doms, (x0, y0), []) \<and> post = []"
    by (simp add: Error(1) Cons_eq_append_conv)
  with Error(1,3) show ?case by simp
next
  case (Same cw doms x0 y0 queue)
  from Same(3) consider "pre = []" "(d, (x, y), new) = (doms, (x0, y0), [])"
    | pre' where "ac3_log cw doms queue = pre' @ (d, (x, y), new) # post"
    by (auto simp: Same(1) Cons_eq_append_conv)
  then show ?case
  proof cases
    case 1
    with Same(1,4) show ?thesis by simp
  next
    case 2
    from Same(2) [OF 2 Same(4,5)] show ?thesis
      by (simp add: Same(1))
  qed
next
  case (Empty cw doms x0 y0 queue doms')
  from Empty(3) have "pre = [] \<and> (d, (x, y), new) = (doms, (x0, y0), []) \<and> post = []"
    by (simp add: Empty(1,2) Cons_eq_append_conv)
  with Empty(1,2,4,5) show ?case by simp
next
  case (Narrowed cw doms x0 y0 queue doms' dx)
  let ?new = "map (\<lambda>z. (z, x0)) (removeAll y0 (neighbors cw x0))"
  from Narrowed(5) consider "pre = []" "(d, (x, y), new) = (doms, (x0, y0), ?new)"
    | pre' where "ac3_log cw doms' (queue @ ?new) = pre' @ (d, (x, y), new) # post"
    by (auto simp: Narrowed(1,2,3) Cons_eq_append_conv)
  then show ?case
  proof cases
    case 1
    with Narrowed(1,2,3,6,7) show ?thesis by simp
  next
    case 2
    from Narrowed(4) [OF 2 Narrowed(6,7)] show ?thesis
      by (simp add: Narrowed(1,2,3))
  qed
qed

text \<open>The first entry is the head of the queue on the store the loop starts with, and the
  store of an entry is the store that the \<^verbatim>\<open>revise\<close> of the entry before it left.\<close>

lemma ac3_log_head:
  "\<exists>new rest. ac3_log cw doms (a # queue) = (doms, a, new) # rest"
proof -
  obtain x y where a: "a = (x, y)" by (cases a)
  show ?thesis
  proof (cases "revise cw doms x y")
    case (Inl e)
    then show ?thesis by (simp add: a)
  next
    case (Inr r)
    obtain revised doms' where "r = (revised, doms')" by (cases r)
    with Inr show ?thesis
      by (cases revised; cases "map_of doms' x") (auto simp: a)
  qed
qed

lemma ac3_log_head_store:
  assumes "ac3_log cw doms queue = (d, a, new) # rest"
  shows "d = doms"
proof (cases queue)
  case Nil
  with assms show ?thesis by simp
next
  case (Cons b queue')
  with ac3_log_head [of cw doms b queue'] assms show ?thesis by auto
qed

lemma ac3_log_chain:
  "ac3_log cw doms queue = pre @ (d, (x, y), new) # (d2, a2, new2) # post \<Longrightarrow>
   \<exists>revised. revise cw d x y = Inr (revised, d2)"
proof (induction cw doms queue arbitrary: pre rule: ac3_run_induct)
  case (Nil cw doms)
  then show ?case by simp
next
  case (Error cw doms x0 y0 queue e)
  then show ?case by (simp add: Error(1) Cons_eq_append_conv)
next
  case (Same cw doms x0 y0 queue)
  from Same(3) consider "(d, (x, y), new) = (doms, (x0, y0), [])"
      "ac3_log cw doms queue = (d2, a2, new2) # post"
    | pre' where "ac3_log cw doms queue = pre' @ (d, (x, y), new) # (d2, a2, new2) # post"
    by (auto simp: Same(1) Cons_eq_append_conv)
  then show ?case
  proof cases
    case 1
    from ac3_log_head_store [OF 1(2)] 1(1) Same(1) show ?thesis by auto
  next
    case 2
    then show ?thesis by (rule Same(2))
  qed
next
  case (Empty cw doms x0 y0 queue doms')
  then show ?case by (simp add: Empty(1,2) Cons_eq_append_conv)
next
  case (Narrowed cw doms x0 y0 queue doms' dx)
  let ?new = "map (\<lambda>z. (z, x0)) (removeAll y0 (neighbors cw x0))"
  from Narrowed(5) consider "(d, (x, y), new) = (doms, (x0, y0), ?new)"
      "ac3_log cw doms' (queue @ ?new) = (d2, a2, new2) # post"
    | pre' where "ac3_log cw doms' (queue @ ?new)
                    = pre' @ (d, (x, y), new) # (d2, a2, new2) # post"
    by (auto simp: Narrowed(1,2,3) Cons_eq_append_conv)
  then show ?case
  proof cases
    case 1
    from ac3_log_head_store [OF 1(2)] 1(1) Narrowed(1) show ?thesis by auto
  next
    case 2
    then show ?thesis by (rule Narrowed(4))
  qed
qed

text \<open>
  C7. \<^verbatim>\<open>ac3\<close> runs its loop on all arcs of the puzzle when it is called without arcs, and
  on the given arcs in their order otherwise. In every run of the loop:
  \<^item> the arcs are revised first in, first out: the sequence of the arcs revised is a prefix
    of the initial queue followed by the arcs appended, in the order they were appended,
    and it is all of it when \<^verbatim>\<open>ac3\<close> returns \<^verbatim>\<open>True\<close>;
  \<^item> a run starts with the head of the queue on the given store, and each iteration works
    on the store that the \<^verbatim>\<open>revise\<close> of the iteration before left;
  \<^item> an iteration on the arc \<open>(x, y)\<close> appends the arcs \<open>(z, x)\<close>, for the neighbors \<open>z\<close> of
    \<open>x\<close> other than \<open>y\<close>, when \<^verbatim>\<open>revise(x, y)\<close> returned \<^verbatim>\<open>True\<close> and the domain of \<open>x\<close> is
    not empty, and nothing otherwise;
  \<^item> an iteration whose \<^verbatim>\<open>revise(x, y)\<close> returned \<^verbatim>\<open>True\<close> and left the domain of \<open>x\<close> empty
    is the last one, whatever is left in the queue, and \<^verbatim>\<open>ac3\<close> returns \<^verbatim>\<open>False\<close> with the
    store as that \<^verbatim>\<open>revise\<close> left it; \<^verbatim>\<open>ac3\<close> returns \<^verbatim>\<open>False\<close> in no other way.
  The last part of the statement is the loop itself, one iteration unfolded.
\<close>

theorem ac3_fifo_run:
  "ac3 cw doms None = ac3_loop cw doms (all_arcs cw) \<and>
   ac3 cw doms (Some arcs) = ac3_loop cw doms arcs \<and>
   (\<exists>rest. queue @ log_appended (ac3_log cw doms queue)
             = log_arcs (ac3_log cw doms queue) @ rest) \<and>
   (\<forall>d_end. ac3_loop cw doms queue = Inr (True, d_end) \<longrightarrow>
      log_arcs (ac3_log cw doms queue) = queue @ log_appended (ac3_log cw doms queue)) \<and>
   (\<forall>a queue'. queue = a # queue' \<longrightarrow>
      (\<exists>new rest. ac3_log cw doms queue = (doms, a, new) # rest)) \<and>
   (\<forall>pre d x y new d2 a2 new2 post.
      ac3_log cw doms queue = pre @ (d, (x, y), new) # (d2, a2, new2) # post \<longrightarrow>
      (\<exists>revised. revise cw d x y = Inr (revised, d2))) \<and>
   (\<forall>d x y new. (d, (x, y), new) \<in> set (ac3_log cw doms queue) \<longrightarrow>
      (\<forall>e. revise cw d x y = Inl e \<longrightarrow> new = []) \<and>
      (\<forall>revised d'. revise cw d x y = Inr (revised, d') \<longrightarrow>
         new = (if revised \<and> map_of d' x \<noteq> Some []
                then map (\<lambda>z. (z, x)) (filter (\<lambda>z. z \<noteq> y) (neighbors cw x)) else []))) \<and>
   (\<forall>pre d x y new post d'.
      ac3_log cw doms queue = pre @ (d, (x, y), new) # post \<and>
      revise cw d x y = Inr (True, d') \<and> map_of d' x = Some [] \<longrightarrow>
      post = [] \<and> ac3_loop cw doms queue = Inr (False, d')) \<and>
   (\<forall>d_end. ac3_loop cw doms queue = Inr (False, d_end) \<longrightarrow>
      (\<exists>pre d x y. ac3_log cw doms queue = pre @ [(d, (x, y), [])] \<and>
         revise cw d x y = Inr (True, d_end) \<and> map_of d_end x = Some [])) \<and>
   (\<forall>x y revised doms'. revise cw doms x y = Inr (revised, doms') \<longrightarrow>
      ac3_loop cw doms ((x, y) # queue) =
        (if \<not> revised then ac3_loop cw doms' queue
         else if map_of doms' x = Some [] then Inr (False, doms')
         else ac3_loop cw doms'
                (queue @ map (\<lambda>z. (z, x)) (filter (\<lambda>z. z \<noteq> y) (neighbors cw x)))))"
proof (intro conjI allI impI)
  show "ac3 cw doms None = ac3_loop cw doms (all_arcs cw)" by (simp add: ac3_def)
  show "ac3 cw doms (Some arcs) = ac3_loop cw doms arcs" by (simp add: ac3_def)
  show "\<exists>rest. queue @ log_appended (ac3_log cw doms queue)
             = log_arcs (ac3_log cw doms queue) @ rest"
    unfolding log_arcs_def log_appended_def by (rule ac3_log_fifo)
next
  fix d_end assume "ac3_loop cw doms queue = Inr (True, d_end)"
  then show "log_arcs (ac3_log cw doms queue) = queue @ log_appended (ac3_log cw doms queue)"
    unfolding log_arcs_def log_appended_def by (rule ac3_log_True)
next
  fix a queue' assume "queue = a # queue'"
  then show "\<exists>new rest. ac3_log cw doms queue = (doms, a, new) # rest"
    using ac3_log_head [of cw doms a queue'] by simp
next
  fix pre d x y new d2 a2 new2 post
  assume "ac3_log cw doms queue = pre @ (d, (x, y), new) # (d2, a2, new2) # post"
  then show "\<exists>revised. revise cw d x y = Inr (revised, d2)" by (rule ac3_log_chain)
next
  fix d x y new e
  assume "(d, (x, y), new) \<in> set (ac3_log cw doms queue)" "revise cw d x y = Inl e"
  then show "new = []" using ac3_log_entry by blast
next
  fix d x y new revised d'
  assume "(d, (x, y), new) \<in> set (ac3_log cw doms queue)"
    "revise cw d x y = Inr (revised, d')"
  then show "new = (if revised \<and> map_of d' x \<noteq> Some []
                then map (\<lambda>z. (z, x)) (filter (\<lambda>z. z \<noteq> y) (neighbors cw x)) else [])"
    using ac3_log_entry by blast
next
  fix pre d x y new post d'
  assume h: "ac3_log cw doms queue = pre @ (d, (x, y), new) # post \<and>
      revise cw d x y = Inr (True, d') \<and> map_of d' x = Some []"
  then have "post = [] \<and> ac3_loop cw doms queue = Inr (False, d')"
    using ac3_log_stops [of cw doms queue pre d x y new post d'] by simp
  then show "post = []" and "ac3_loop cw doms queue = Inr (False, d')" by simp_all
next
  fix d_end assume "ac3_loop cw doms queue = Inr (False, d_end)"
  then show "\<exists>pre d x y. ac3_log cw doms queue = pre @ [(d, (x, y), [])] \<and>
         revise cw d x y = Inr (True, d_end) \<and> map_of d_end x = Some []"
    by (rule ac3_log_False)
next
  fix x y revised doms'
  assume rev: "revise cw doms x y = Inr (revised, doms')"
  show "ac3_loop cw doms ((x, y) # queue) =
        (if \<not> revised then ac3_loop cw doms' queue
         else if map_of doms' x = Some [] then Inr (False, doms')
         else ac3_loop cw doms'
                (queue @ map (\<lambda>z. (z, x)) (filter (\<lambda>z. z \<noteq> y) (neighbors cw x))))"
  proof (cases revised)
    case False
    with rev show ?thesis by simp
  next
    case True
    with rev have "revise cw doms x y = Inr (True, doms')" by simp
    then obtain dx' where "map_of doms' x = Some dx'"
      using revise_True_domain by blast
    with rev True show ?thesis by (cases dx') (simp_all add: removeAll_as_filter)
  qed
qed

theorem ac3_fifo_run_witness:
  "ac3 (ex3_crossword ex3_words) (init_domains (ex3_crossword ex3_words)) None
     = Inr (True, [(ex3_across, [''cat'']), (ex3_left, [''cat'']), (ex3_right, [''tea''])]) \<and>
   all_arcs (ex3_crossword ex3_words)
     = [(ex3_across, ex3_left), (ex3_across, ex3_right),
        (ex3_left, ex3_across), (ex3_right, ex3_across)] \<and>
   log_appended (ac3_log (ex3_crossword ex3_words) (init_domains (ex3_crossword ex3_words))
                   (all_arcs (ex3_crossword ex3_words)))
     = [(ex3_left, ex3_across)] \<and>
   log_arcs (ac3_log (ex3_crossword ex3_words) (init_domains (ex3_crossword ex3_words))
               (all_arcs (ex3_crossword ex3_words)))
     = [(ex3_across, ex3_left), (ex3_across, ex3_right),
        (ex3_left, ex3_across), (ex3_right, ex3_across), (ex3_left, ex3_across)] \<and>
   revise (ex3_crossword ex3_words) (init_domains (ex3_crossword ex3_words))
       ex3_across ex3_right
     = Inr (True, [(ex3_across, [''cat'']), (ex3_left, [''cat'', ''tea'', ''oak'']),
                   (ex3_right, [''cat'', ''tea'', ''oak''])]) \<and>
   ac3 (ex3_crossword [''cat'', ''oak'']) (init_domains (ex3_crossword [''cat'', ''oak''])) None
     = Inr (False, [(ex3_across, []), (ex3_left, [''cat'', ''oak'']),
                    (ex3_right, [''cat'', ''oak''])]) \<and>
   log_arcs (ac3_log (ex3_crossword [''cat'', ''oak''])
               (init_domains (ex3_crossword [''cat'', ''oak'']))
               (all_arcs (ex3_crossword [''cat'', ''oak''])))
     = [(ex3_across, ex3_left), (ex3_across, ex3_right)]"
proof -
  let ?cw = "ex3_crossword ex3_words"
  let ?d = "init_domains ?cw"
  let ?cw' = "ex3_crossword [''cat'', ''oak'']"
  let ?d' = "init_domains ?cw'"
  have 1: "ac3 ?cw ?d None
     = Inr (True, [(ex3_across, [''cat'']), (ex3_left, [''cat'']), (ex3_right, [''tea''])])"
    by code_simp
  have 2: "all_arcs ?cw = [(ex3_across, ex3_left), (ex3_across, ex3_right),
        (ex3_left, ex3_across), (ex3_right, ex3_across)]"
    by code_simp
  have 3: "log_appended (ac3_log ?cw ?d (all_arcs ?cw)) = [(ex3_left, ex3_across)]"
    by code_simp
  have 4: "revise ?cw ?d ex3_across ex3_right
     = Inr (True, [(ex3_across, [''cat'']), (ex3_left, [''cat'', ''tea'', ''oak'']),
                   (ex3_right, [''cat'', ''tea'', ''oak''])])"
    by code_simp
  have 5: "ac3 ?cw' ?d' None
     = Inr (False, [(ex3_across, []), (ex3_left, [''cat'', ''oak'']),
                    (ex3_right, [''cat'', ''oak''])])"
    by code_simp
  have 6: "log_arcs (ac3_log ?cw' ?d' (all_arcs ?cw'))
     = [(ex3_across, ex3_left), (ex3_across, ex3_right)]"
    by code_simp
  have run: "ac3_loop ?cw ?d (all_arcs ?cw)
     = Inr (True, [(ex3_across, [''cat'']), (ex3_left, [''cat'']), (ex3_right, [''tea''])])"
    using 1 by (simp only: ac3_def option.case)
  from ac3_fifo_run [of ?cw ?d "[]" "all_arcs ?cw"]
  have "\<forall>d_end. ac3_loop ?cw ?d (all_arcs ?cw) = Inr (True, d_end) \<longrightarrow>
      log_arcs (ac3_log ?cw ?d (all_arcs ?cw))
        = all_arcs ?cw @ log_appended (ac3_log ?cw ?d (all_arcs ?cw))"
    by (elim conjE)
  with run have "log_arcs (ac3_log ?cw ?d (all_arcs ?cw))
        = all_arcs ?cw @ log_appended (ac3_log ?cw ?d (all_arcs ?cw))"
    by blast
  also have "\<dots> = all_arcs ?cw @ [(ex3_left, ex3_across)]"
    by (simp only: 3)
  also have "\<dots> = [(ex3_across, ex3_left), (ex3_across, ex3_right),
        (ex3_left, ex3_across), (ex3_right, ex3_across), (ex3_left, ex3_across)]"
    by (simp only: 2 append.simps)
  finally have 7: "log_arcs (ac3_log ?cw ?d (all_arcs ?cw))
     = [(ex3_across, ex3_left), (ex3_across, ex3_right),
        (ex3_left, ex3_across), (ex3_right, ex3_across), (ex3_left, ex3_across)]" .
  from 1 2 3 7 4 5 6 show ?thesis by (intro conjI)
qed

section \<open>Arc consistency after AC-3\<close>

lemma wf_crosswordD:
  assumes "wf_crossword cw" "x \<in> set (variables cw)" "y \<in> set (neighbors cw x)"
  shows "y \<noteq> x" "y \<in> set (variables cw)" "x \<in> set (neighbors cw y)"
    "\<exists>i j. overlaps cw (x, y) = Some (Some (i, j)) \<and> overlaps cw (y, x) = Some (Some (j, i)) \<and>
           i < var_length x \<and> j < var_length y"
proof -
  from assms have *: "y \<noteq> x \<and> y \<in> set (variables cw) \<and> x \<in> set (neighbors cw y) \<and>
        (case overlaps cw (x, y) of
           Some (Some (i, j)) \<Rightarrow>
             overlaps cw (y, x) = Some (Some (j, i)) \<and> i < var_length x \<and> j < var_length y
         | _ \<Rightarrow> False)"
    unfolding wf_crossword_def by blast
  from * show "y \<noteq> x" "y \<in> set (variables cw)" "x \<in> set (neighbors cw y)" by simp_all
  from * obtain ov where ov: "overlaps cw (x, y) = Some ov" by (cases "overlaps cw (x, y)") auto
  with * obtain ij where ij: "ov = Some ij" by (cases ov) auto
  obtain i j where "ij = (i, j)" by (cases ij)
  with * ov ij show "\<exists>i j. overlaps cw (x, y) = Some (Some (i, j)) \<and>
      overlaps cw (y, x) = Some (Some (j, i)) \<and> i < var_length x \<and> j < var_length y"
    by simp
qed

lemma revise_Some_unfold:
  assumes "revise cw doms x y = Inr (revised, doms1)"
    and ov: "overlaps cw (x, y) = Some (Some (i, j))"
  shows "\<exists>dx r. map_of doms x = Some dx \<and> unsupported doms y i j dx = Inr r \<and>
           revised = (r \<noteq> []) \<and>
           doms1 = (if r \<noteq> [] then AList.update x (set_minus dx r) doms else doms)"
proof (cases "map_of doms x")
  case None
  with ov assms(1) show ?thesis by (simp add: revise_def)
next
  case dx: (Some dx)
  show ?thesis
  proof (cases "unsupported doms y i j dx")
    case (Inl e)
    with ov dx assms(1) show ?thesis by (simp add: revise_def)
  next
    case (Inr r)
    with ov dx assms(1) show ?thesis by (cases "r = []") (auto simp: revise_def)
  qed
qed

lemma revise_arc_consistent:
  assumes rev: "revise cw doms x y = Inr (revised, doms1)" and neq: "x \<noteq> y"
  shows "arc_consistent cw doms1 x y"
  unfolding arc_consistent_def
proof (intro allI impI ballI)
  fix i j dx1 wx
  assume ov: "overlaps cw (x, y) = Some (Some (i, j))"
    and dx1: "map_of doms1 x = Some dx1" and wx: "wx \<in> set dx1"
  from revise_Some_unfold [OF rev ov] obtain dx r where
    dx: "map_of doms x = Some dx" and r: "unsupported doms y i j dx = Inr r"
    and d1: "doms1 = (if r \<noteq> [] then AList.update x (set_minus dx r) doms else doms)"
    by blast
  have "dx \<noteq> []"
  proof
    assume "dx = []"
    with r have "r = []" by simp
    with d1 dx dx1 \<open>dx = []\<close> wx show False by simp
  qed
  with r have "map_of doms y \<noteq> None" by (rule unsupported_key)
  then obtain dy where dy: "map_of doms y = Some dy" by auto
  from revise_Inr [OF rev ov dy] dx
  have "doms1 = AList.update x (filter (\<lambda>w. has_support i j w dy) dx) doms" by simp
  with dx1 wx neq dy
  show "\<exists>dy. map_of doms1 y = Some dy \<and> has_support i j wx dy"
    by (auto simp: update_conv')
qed

lemma revise_keeps_supported:
  assumes rev: "revise cw doms x y = Inr (revised, doms1)"
    and ov: "overlaps cw (x, y) = Some (Some (i, j))"
    and dx: "map_of doms x = Some dx" and dy: "map_of doms y = Some dy"
    and wx: "wx \<in> set dx" and sup: "has_support i j wx dy"
  shows "\<exists>dx1. map_of doms1 x = Some dx1 \<and> wx \<in> set dx1"
  using revise_Inr [OF rev ov dy] dx wx sup by (auto simp: update_conv')

lemma supports_swap: "supports i j wx wy \<longleftrightarrow> supports j i wy wx"
  by (auto simp: supports_def)

lemma arc_consistent_mono:
  assumes "arc_consistent cw doms a b"
    and "map_of doms1 b = map_of doms b"
    and "\<And>da1. map_of doms1 a = Some da1 \<Longrightarrow> \<exists>da. map_of doms a = Some da \<and> set da1 \<subseteq> set da"
  shows "arc_consistent cw doms1 a b"
  unfolding arc_consistent_def
proof (intro allI impI ballI)
  fix i j da1 wa
  assume ov: "overlaps cw (a, b) = Some (Some (i, j))"
    and da1: "map_of doms1 a = Some da1" and wa: "wa \<in> set da1"
  from assms(3) [OF da1] obtain da where "map_of doms a = Some da" "set da1 \<subseteq> set da" by blast
  with wa assms(1) ov have "\<exists>dy. map_of doms b = Some dy \<and> has_support i j wa dy"
    unfolding arc_consistent_def by blast
  with assms(2) show "\<exists>dy. map_of doms1 b = Some dy \<and> has_support i j wa dy" by simp
qed

lemma revise_domain_subset:
  assumes "revise cw doms x y = Inr (revised, doms1)" and "map_of doms1 a = Some da1"
  shows "\<exists>da. map_of doms a = Some da \<and> set da1 \<subseteq> set da"
  using revise_shrinks [OF assms(1)] assms(2) unfolding shrinks_def by blast

lemma revise_other_domain:
  assumes "revise cw doms x y = Inr (revised, doms1)" and "b \<noteq> x"
  shows "map_of doms1 b = map_of doms b"
  using revise_cases [OF assms(1)] assms(2) by (auto simp: update_conv')

lemma ac3_inv_step:
  assumes wf: "wf_crossword cw"
    and rev: "revise cw doms x y = Inr (revised, doms1)"
    and inv: "ac3_inv cw doms ((x, y) # queue)"
  shows "ac3_inv cw doms1
           (if revised then queue @ map (\<lambda>z. (z, x)) (removeAll y (neighbors cw x)) else queue)"
    (is "ac3_inv cw doms1 ?queue'")
  unfolding ac3_inv_def
proof (intro ballI)
  fix a b
  assume a: "a \<in> set (variables cw)" and b: "b \<in> set (neighbors cw a)"
  note wfab = wf_crosswordD [OF wf a b]
  show "(a, b) \<in> set ?queue' \<or> arc_consistent cw doms1 a b"
  proof (cases "(a, b) = (x, y)")
    case True
    with wfab(1) have "x \<noteq> y" by auto
    with rev have "arc_consistent cw doms1 x y" by (rule revise_arc_consistent)
    with True show ?thesis by simp
  next
    case other: False
    from inv a b have "(a, b) \<in> set ((x, y) # queue) \<or> arc_consistent cw doms a b"
      unfolding ac3_inv_def by blast
    with other consider "(a, b) \<in> set queue" | "arc_consistent cw doms a b" by auto
    then show ?thesis
    proof cases
      case 1
      then show ?thesis by simp
    next
      case 2
      show ?thesis
      proof (cases "b = x")
        case False
        from rev False have "map_of doms1 b = map_of doms b" by (rule revise_other_domain)
        with 2 have "arc_consistent cw doms1 a b"
          by (rule arc_consistent_mono) (rule revise_domain_subset [OF rev])
        then show ?thesis by simp
      next
        case bx: True
        show ?thesis
        proof (cases revised)
          case False
          with rev have "doms1 = doms" by (simp add: revise_False_same)
          with 2 show ?thesis by simp
        next
          case revised: True
          show ?thesis
          proof (cases "a = y")
            case False
            from wfab(3) bx have "a \<in> set (neighbors cw x)" by simp
            with False have "(a, x) \<in> set (map (\<lambda>z. (z, x)) (removeAll y (neighbors cw x)))"
              by simp
            with revised bx show ?thesis by simp
          next
            case ay: True
            from wfab(4) ay bx obtain i j where
              ovyx: "overlaps cw (y, x) = Some (Some (i, j))" and
              ovxy: "overlaps cw (x, y) = Some (Some (j, i))" by auto
            from wfab(1) ay bx have neq: "y \<noteq> x" by simp
            have dy_same: "map_of doms1 y = map_of doms y"
              using rev neq by (rule revise_other_domain)
            have "arc_consistent cw doms1 y x"
              unfolding arc_consistent_def
            proof (intro allI impI ballI)
              fix i' j' dy wy
              assume "overlaps cw (y, x) = Some (Some (i', j'))"
                and dy1: "map_of doms1 y = Some dy" and wy: "wy \<in> set dy"
              with ovyx have ij: "i' = i" "j' = j" by simp_all
              from dy1 dy_same have dy: "map_of doms y = Some dy" by simp
              from 2 ay bx ovyx dy wy obtain dx where
                dx: "map_of doms x = Some dx" and "has_support i j wy dx"
                unfolding arc_consistent_def by blast
              then obtain wx where wx: "wx \<in> set dx" and s: "supports i j wy wx"
                unfolding has_support_def by blast
              from s have "supports j i wx wy" by (simp add: supports_swap)
              with wy have "has_support j i wx dy" unfolding has_support_def by blast
              with rev ovxy dx dy wx obtain dx1 where
                "map_of doms1 x = Some dx1" "wx \<in> set dx1"
                using revise_keeps_supported by blast
              with s show "\<exists>dx. map_of doms1 x = Some dx \<and> has_support i' j' wy dx"
                unfolding has_support_def ij by blast
            qed
            with ay bx show ?thesis by simp
          qed
        qed
      qed
    qed
  qed
qed

lemma ac3_loop_sound:
  "wf_crossword cw \<Longrightarrow> ac3_loop cw doms queue = Inr (True, doms') \<Longrightarrow>
   ac3_inv cw doms queue \<Longrightarrow> ac3_inv cw doms' []"
proof (induction cw doms queue rule: ac3_loop.induct)
  case (1 cw doms)
  then show ?case by simp
next
  case (2 cw doms x y queue)
  from "2.prems"(2) obtain revised doms1 where
    rev: "revise cw doms x y = Inr (revised, doms1)"
    by (cases "revise cw doms x y") auto
  note step = ac3_inv_step [OF "2.prems"(1) rev "2.prems"(3)]
  show ?case
  proof (cases revised)
    case False
    with rev "2.prems"(2) have "ac3_loop cw doms1 queue = Inr (True, doms')" by simp
    moreover from step False have "ac3_inv cw doms1 queue" by simp
    ultimately show ?thesis
      using "2.IH"(2) [OF rev refl False "2.prems"(1)] by simp
  next
    case True
    with rev have "revise cw doms x y = Inr (True, doms1)" by simp
    then obtain dx where dx: "map_of doms1 x = Some dx"
      using revise_True_domain by blast
    from rev True dx "2.prems"(2) have nonempty: "length dx \<noteq> 0"
      by (cases dx) auto
    with rev True dx "2.prems"(2) have
      "ac3_loop cw doms1 (queue @ map (\<lambda>z. (z, x)) (removeAll y (neighbors cw x)))
         = Inr (True, doms')" by simp
    moreover from step True have
      "ac3_inv cw doms1 (queue @ map (\<lambda>z. (z, x)) (removeAll y (neighbors cw x)))" by simp
    ultimately show ?thesis
      using "2.IH"(1) [OF rev refl True dx nonempty "2.prems"(1)] by simp
  qed
qed

text \<open>
  C3. When \<^verbatim>\<open>ac3()\<close> is called without arcs on a well-formed puzzle and returns \<^verbatim>\<open>True\<close>,
  then for every slot \<open>x\<close> and every neighbor \<open>y\<close> of \<open>x\<close>, with overlap \<open>(i, j)\<close>, every word
  left in the domain of \<open>x\<close> has a word in the domain of \<open>y\<close> that carries at index \<open>j\<close> the
  letter the first carries at index \<open>i\<close>.
\<close>

theorem ac3_arc_consistent:
  assumes "wf_crossword cw"
    and "ac3 cw doms None = Inr (True, doms')"
    and "x \<in> set (variables cw)" and "y \<in> set (neighbors cw x)"
  shows "\<exists>i j. overlaps cw (x, y) = Some (Some (i, j)) \<and>
           (\<forall>dx wx. map_of doms' x = Some dx \<and> wx \<in> set dx \<longrightarrow>
              (\<exists>dy wy. map_of doms' y = Some dy \<and> wy \<in> set dy \<and>
                 i < length wx \<and> j < length wy \<and> wx ! i = wy ! j))"
proof -
  have "ac3_inv cw doms (all_arcs cw)"
    unfolding ac3_inv_def all_arcs_def by auto
  with assms(1,2) have "ac3_inv cw doms' []"
    unfolding ac3_def by (simp add: ac3_loop_sound)
  with assms(3,4) have ac: "arc_consistent cw doms' x y"
    unfolding ac3_inv_def by auto
  from wf_crosswordD(4) [OF assms(1,3,4)] obtain i j where
    ov: "overlaps cw (x, y) = Some (Some (i, j))" by blast
  have "\<exists>dy wy. map_of doms' y = Some dy \<and> wy \<in> set dy \<and>
                 i < length wx \<and> j < length wy \<and> wx ! i = wy ! j"
    if "map_of doms' x = Some dx" "wx \<in> set dx" for dx wx
    using ac ov that unfolding arc_consistent_def has_support_def supports_def by blast
  with ov show ?thesis by blast
qed

theorem ac3_arc_consistent_witness:
  "wf_crossword (ex_crossword ex_words) \<and>
   ac3 (ex_crossword ex_words)
     (enforce_node_consistency (init_domains (ex_crossword ex_words))) None
     = Inr (True, [(ex_across, [''cat'']), (ex_down, [''stem''])]) \<and>
   ex_across \<in> set (variables (ex_crossword ex_words)) \<and>
   ex_down \<in> set (neighbors (ex_crossword ex_words) ex_across) \<and>
   overlaps (ex_crossword ex_words) (ex_across, ex_down) = Some (Some (2, 1)) \<and>
   ''cat'' ! 2 = ''stem'' ! 1"
proof -
  let ?cw = "ex_crossword ex_words"
  have w: "wf_crossword ?cw" by code_simp
  have a: "ac3 ?cw (enforce_node_consistency (init_domains ?cw)) None
             = Inr (True, [(ex_across, [''cat'']), (ex_down, [''stem''])])"
    by code_simp
  have v: "ex_across \<in> set (variables ?cw)" by (simp add: ex_defs)
  have n: "ex_down \<in> set (neighbors ?cw ex_across)" by (simp add: ex_defs)
  from ac3_arc_consistent [OF w a v n] w a v n show ?thesis
    by (simp add: ex_defs)
qed

section \<open>Variable selection\<close>

lemma tuple_less_trans: "tuple_less a b \<Longrightarrow> tuple_less b c \<Longrightarrow> tuple_less a c"
  unfolding tuple_less_def by auto

lemma tuple_less_le_trans: "tuple_less a b \<Longrightarrow> \<not> tuple_less c b \<Longrightarrow> tuple_less a c"
  unfolding tuple_less_def by auto

lemma tuple_less_asym: "tuple_less a b \<Longrightarrow> \<not> tuple_less b a"
  unfolding tuple_less_def by auto

lemma tuple_less_irrefl: "\<not> tuple_less a a"
  unfolding tuple_less_def by auto

lemma first_min_in: "first_min p xs \<Longrightarrow> p \<in> set xs"
  unfolding first_min_def by auto

lemma first_min_least: "first_min p xs \<Longrightarrow> q \<in> set xs \<Longrightarrow> \<not> tuple_less (fst q) (fst p)"
  unfolding first_min_def using tuple_less_asym [of "fst p" "fst q"] tuple_less_irrefl [of "fst p"]
  by auto

lemma first_min_snoc:
  assumes "first_min best seen"
  shows "first_min (if tuple_less (fst c) (fst best) then c else best) (seen @ [c])"
proof -
  from assms obtain pre post where
    seen: "seen = pre @ best # post"
    and pre: "\<forall>q \<in> set pre. tuple_less (fst best) (fst q)"
    and post: "\<forall>q \<in> set post. \<not> tuple_less (fst q) (fst best)"
    unfolding first_min_def by blast
  show ?thesis
  proof (cases "tuple_less (fst c) (fst best)")
    case True
    have "\<forall>q \<in> set seen. tuple_less (fst c) (fst q)"
      unfolding seen using True pre post
      by (auto intro: tuple_less_trans tuple_less_le_trans)
    then have "first_min c (seen @ [c])"
      unfolding first_min_def by (intro exI [of _ seen] exI [of _ "[]"]) simp
    with True show ?thesis by simp
  next
    case False
    have "first_min best (seen @ [c])"
      unfolding first_min_def seen
      using pre post False by (intro exI [of _ pre] exI [of _ "post @ [c]"]) auto
    with False show ?thesis by simp
  qed
qed

lemma min_by_key_first_min:
  "first_min best seen \<Longrightarrow> \<exists>p. first_min p (seen @ cs) \<and> min_by_key best cs = snd p"
proof (induction cs arbitrary: best seen)
  case Nil
  then show ?case by (intro exI [of _ best]) simp
next
  case (Cons c cs)
  from Cons.IH [OF first_min_snoc [OF Cons.prems, of c]]
  show ?case by simp
qed

lemma min_by_key_is_first_min: "\<exists>p. first_min p (k # ks) \<and> min_by_key k ks = snd p"
proof -
  have "first_min k [k]" unfolding first_min_def by (intro exI [of _ "[]"]) simp
  from min_by_key_first_min [OF this, of ks] show ?thesis by simp
qed

lemma with_keys_total:
  "\<forall>x \<in> set xs. f x = Inr (g x) \<Longrightarrow> with_keys f xs = Inr (map (\<lambda>x. (g x, x)) xs)"
  by (induction xs) auto

lemma select_unassigned_variable_first:
  assumes ne: "unassigned_variables cw a \<noteq> []"
    and keys: "\<forall>v \<in> set (unassigned_variables cw a). map_of doms v \<noteq> None"
  shows "\<exists>var. select_unassigned_variable cw doms a = Inr var \<and>
           first_min (key_of cw doms var, var)
             (map (\<lambda>v. (key_of cw doms v, v)) (unassigned_variables cw a))"
proof -
  let ?us = "unassigned_variables cw a"
  let ?keyed = "map (\<lambda>v. (key_of cw doms v, v)) ?us"
  have "\<forall>v \<in> set ?us. select_key cw doms v = Inr (key_of cw doms v)"
    using keys by (auto simp: select_key_def key_of_def)
  then have wk: "with_keys (select_key cw doms) ?us = Inr ?keyed"
    by (rule with_keys_total)
  from ne obtain u us where us: "?us = u # us" by (cases ?us) auto
  let ?k = "(key_of cw doms u, u)"
  let ?ks = "map (\<lambda>v. (key_of cw doms v, v)) us"
  have keyed: "?keyed = ?k # ?ks" by (simp add: us)
  from min_by_key_is_first_min [of ?k ?ks] obtain p where
    p: "first_min p (?k # ?ks)" and m: "min_by_key ?k ?ks = snd p" by blast
  from p have "p \<in> set ?keyed" unfolding keyed by (rule first_min_in)
  then have p_eq: "p = (key_of cw doms (snd p), snd p)" by auto
  have "select_unassigned_variable cw doms a = Inr (snd p)"
    unfolding select_unassigned_variable_def wk keyed using m by simp
  moreover have "first_min (key_of cw doms (snd p), snd p) ?keyed"
    using p p_eq keyed by simp
  ultimately show ?thesis by blast
qed

text \<open>
  C8. When some slot of the puzzle is unassigned (and every unassigned slot has a domain
  in the store), \<^verbatim>\<open>select_unassigned_variable\<close> returns an unassigned slot whose domain is
  no larger than the domain of any unassigned slot, and which has at least as many
  neighbors as every unassigned slot with a domain of the same size.
\<close>

theorem select_unassigned_variable_mrv_degree:
  assumes "\<exists>v \<in> set (variables cw). map_of a v = None"
    and "\<forall>v \<in> set (variables cw). map_of a v = None \<longrightarrow> map_of doms v \<noteq> None"
  shows "\<exists>var dv. select_unassigned_variable cw doms a = Inr var \<and>
           var \<in> set (variables cw) \<and> map_of a var = None \<and> map_of doms var = Some dv \<and>
           (\<forall>u du. u \<in> set (variables cw) \<and> map_of a u = None \<and> map_of doms u = Some du \<longrightarrow>
              length dv \<le> length du \<and>
              (length du = length dv \<longrightarrow>
                 length (neighbors cw u) \<le> length (neighbors cw var)))"
proof -
  let ?us = "unassigned_variables cw a"
  have us: "set ?us = {v \<in> set (variables cw). map_of a v = None}"
    by (auto simp: unassigned_variables_def)
  from assms(1) us have ne: "?us \<noteq> []" by auto
  from assms(2) us have keys: "\<forall>v \<in> set ?us. map_of doms v \<noteq> None" by auto
  from select_unassigned_variable_first [OF ne keys] obtain var where
    sel: "select_unassigned_variable cw doms a = Inr var"
    and fm: "first_min (key_of cw doms var, var) (map (\<lambda>v. (key_of cw doms v, v)) ?us)"
    by blast
  from first_min_in [OF fm] have var_in: "var \<in> set ?us" by auto
  with keys obtain dv where dv: "map_of doms var = Some dv" by auto
  have least: "length dv \<le> length du \<and>
      (length du = length dv \<longrightarrow> length (neighbors cw u) \<le> length (neighbors cw var))"
    if "u \<in> set (variables cw) \<and> map_of a u = None \<and> map_of doms u = Some du" for u du
  proof -
    from that us have "(key_of cw doms u, u) \<in> set (map (\<lambda>v. (key_of cw doms v, v)) ?us)"
      by auto
    from first_min_least [OF fm this]
    have "\<not> tuple_less (key_of cw doms u) (key_of cw doms var)" by simp
    with that dv show ?thesis
      by (auto simp: key_of_def tuple_less_def)
  qed
  from sel var_in us dv least show ?thesis by blast
qed

theorem select_unassigned_variable_mrv_degree_witness:
  "(\<exists>v \<in> set (variables (ex_crossword ex_words)). map_of [] v = None) \<and>
   select_unassigned_variable (ex_crossword ex_words)
     [(ex_across, [''cat'', ''bee'']), (ex_down, [''stem''])] [] = Inr ex_down"
proof -
  let ?cw = "ex_crossword ex_words"
  let ?d = "[(ex_across, [''cat'', ''bee'']), (ex_down, [''stem''])]"
  have 1: "\<exists>v \<in> set (variables ?cw). map_of ([] :: assignment) v = None"
    by (auto simp: ex_defs)
  have 2: "\<forall>v \<in> set (variables ?cw). map_of ([] :: assignment) v = None \<longrightarrow> map_of ?d v \<noteq> None"
    by (simp add: ex_defs)
  have 3: "select_unassigned_variable ?cw ?d [] = Inr ex_down"
    by code_simp
  from select_unassigned_variable_mrv_degree [OF 1 2] 1 3 show ?thesis by simp
qed

section \<open>The consistency check\<close>

lemma lengths_ok_iff: "lengths_ok a \<longleftrightarrow> (\<forall>(var, word) \<in> set a. length word = var_length var)"
  by (induction a rule: lengths_ok.induct) auto

lemma remdups_length_iff: "length vals \<noteq> length (remdups vals) \<longleftrightarrow> \<not> distinct vals"
proof -
  have "length (remdups vals) = length vals \<longleftrightarrow> distinct vals"
    by (simp add: length_remdups_eq remdups_id_iff_distinct)
  then show ?thesis by metis
qed

lemma neighbors_agree_True:
  "neighbors_agree cw a var word nbs = Inr True \<Longrightarrow> nb \<in> set nbs \<Longrightarrow>
   map_of a nb = Some nword \<Longrightarrow> overlaps cw (var, nb) = Some (Some (i, j)) \<Longrightarrow>
   i < length word \<and> j < length nword \<and> word ! i = nword ! j"
proof (induction nbs)
  case Nil
  then show ?case by simp
next
  case (Cons n nbs)
  show ?case
  proof (cases "nb = n")
    case True
    with Cons.prems show ?thesis by (auto split: if_splits)
  next
    case False
    with Cons.prems have "nb \<in> set nbs" by simp
    moreover from Cons.prems(1) have "neighbors_agree cw a var word nbs = Inr True"
      by (auto split: option.splits prod.splits if_splits)
    ultimately show ?thesis using Cons.IH Cons.prems(3,4) by simp
  qed
qed

lemma overlaps_agree_True:
  "overlaps_agree cw a items = Inr True \<Longrightarrow> (var, word) \<in> set items \<Longrightarrow>
   neighbors_agree cw a var word (neighbors cw var) = Inr True"
proof (induction items)
  case Nil
  then show ?case by simp
next
  case (Cons p items)
  obtain v w where p: "p = (v, w)" by (cases p)
  from Cons.prems(1) have head: "neighbors_agree cw a v w (neighbors cw v) = Inr True"
    and rest: "overlaps_agree cw a items = Inr True"
    unfolding p by (auto split: sum.splits if_splits)
  from Cons.prems(2) p consider "(var, word) = (v, w)" | "(var, word) \<in> set items" by auto
  then show ?case
  proof cases
    case 1
    with head show ?thesis by simp
  next
    case 2
    with rest show ?thesis by (rule Cons.IH)
  qed
qed

lemma consistent_True:
  assumes "consistent cw a = Inr True"
  shows "lengths_ok a" "distinct (map snd a)" "overlaps_agree cw a a = Inr True"
proof -
  from assms show l: "lengths_ok a"
    unfolding consistent_def by (auto split: if_splits)
  from assms l show d: "distinct (map snd a)"
    unfolding consistent_def Let_def remdups_length_iff by (auto split: if_splits)
  from assms l d show "overlaps_agree cw a a = Inr True"
    unfolding consistent_def Let_def remdups_length_iff by simp
qed

text \<open>No exception in the loop over the neighbors, when the words have the lengths of
  their slots and the overlap of \<open>var\<close> with each assigned neighbor is a pair of indices
  within those lengths.\<close>

lemma neighbors_agree_total:
  assumes "length word = var_length var"
    and "\<forall>nb \<in> set nbs. \<forall>nword. map_of a nb = Some nword \<longrightarrow>
           length nword = var_length nb \<and>
           (\<exists>i j. overlaps cw (var, nb) = Some (Some (i, j)) \<and> i < var_length var \<and> j < var_length nb)"
  shows "neighbors_agree cw a var word nbs =
           Inr (\<forall>nb \<in> set nbs. \<forall>nword i j.
                  map_of a nb = Some nword \<and> overlaps cw (var, nb) = Some (Some (i, j)) \<longrightarrow>
                  word ! i = nword ! j)"
  using assms(2)
proof (induction nbs)
  case Nil
  show ?case by simp
next
  case (Cons n nbs)
  from Cons.prems have IH: "neighbors_agree cw a var word nbs =
           Inr (\<forall>nb \<in> set nbs. \<forall>nword i j.
                  map_of a nb = Some nword \<and> overlaps cw (var, nb) = Some (Some (i, j)) \<longrightarrow>
                  word ! i = nword ! j)"
    by (intro Cons.IH) simp
  show ?case
  proof (cases "map_of a n")
    case None
    with IH show ?thesis by simp
  next
    case (Some nword)
    with Cons.prems obtain i j where
      ov: "overlaps cw (var, n) = Some (Some (i, j))" and
      rng: "i < var_length var" "j < var_length n" "length nword = var_length n"
      by auto
    show ?thesis
    proof (cases "word ! i = nword ! j")
      case True
      with Some ov rng assms(1) IH show ?thesis by simp
    next
      case False
      with Some ov rng assms(1) show ?thesis by auto
    qed
  qed
qed

lemma overlaps_agree_total:
  assumes "\<forall>(var, word) \<in> set items. length word = var_length var \<and>
           (\<forall>nb \<in> set (neighbors cw var). \<forall>nword. map_of a nb = Some nword \<longrightarrow>
              length nword = var_length nb \<and>
              (\<exists>i j. overlaps cw (var, nb) = Some (Some (i, j)) \<and>
                     i < var_length var \<and> j < var_length nb))"
  shows "overlaps_agree cw a items =
           Inr (\<forall>(var, word) \<in> set items. \<forall>nb \<in> set (neighbors cw var). \<forall>nword i j.
                  map_of a nb = Some nword \<and> overlaps cw (var, nb) = Some (Some (i, j)) \<longrightarrow>
                  word ! i = nword ! j)"
  using assms
proof (induction items)
  case Nil
  show ?case by simp
next
  case (Cons p items)
  obtain v w where p: "p = (v, w)" by (cases p)
  from Cons.prems have IH: "overlaps_agree cw a items =
           Inr (\<forall>(var, word) \<in> set items. \<forall>nb \<in> set (neighbors cw var). \<forall>nword i j.
                  map_of a nb = Some nword \<and> overlaps cw (var, nb) = Some (Some (i, j)) \<longrightarrow>
                  word ! i = nword ! j)"
    by (intro Cons.IH) simp
  from Cons.prems p have head: "neighbors_agree cw a v w (neighbors cw v) =
           Inr (\<forall>nb \<in> set (neighbors cw v). \<forall>nword i j.
                  map_of a nb = Some nword \<and> overlaps cw (v, nb) = Some (Some (i, j)) \<longrightarrow>
                  w ! i = nword ! j)"
    by (intro neighbors_agree_total) auto
  show ?case unfolding p using head IH by simp
qed

lemma distinct_values_iff:
  assumes "distinct (map fst a)"
  shows "distinct (map snd a) \<longleftrightarrow> \<not> (\<exists>x y w. x \<noteq> y \<and> map_of a x = Some w \<and> map_of a y = Some w)"
proof -
  from assms have da: "distinct a" by (simp add: distinct_map)
  have mem: "map_of a v = Some w \<longleftrightarrow> (v, w) \<in> set a" for v w
    using assms by simp
  have "distinct (map snd a) \<longleftrightarrow> inj_on snd (set a)"
    using da by (simp add: distinct_map)
  also have "\<dots> \<longleftrightarrow> \<not> (\<exists>x y w. x \<noteq> y \<and> (x, w) \<in> set a \<and> (y, w) \<in> set a)"
  proof
    assume inj: "inj_on snd (set a)"
    show "\<not> (\<exists>x y w. x \<noteq> y \<and> (x, w) \<in> set a \<and> (y, w) \<in> set a)"
    proof
      assume "\<exists>x y w. x \<noteq> y \<and> (x, w) \<in> set a \<and> (y, w) \<in> set a"
      then obtain x y w where "x \<noteq> y" "(x, w) \<in> set a" "(y, w) \<in> set a" by blast
      with inj_onD [OF inj, of "(x, w)" "(y, w)"] show False by simp
    qed
  next
    assume no: "\<not> (\<exists>x y w. x \<noteq> y \<and> (x, w) \<in> set a \<and> (y, w) \<in> set a)"
    show "inj_on snd (set a)"
    proof (rule inj_onI)
      fix p q assume "p \<in> set a" "q \<in> set a" "snd p = snd q"
      with no show "p = q" by (cases p, cases q) auto
    qed
  qed
  finally show ?thesis by (simp add: mem)
qed

text \<open>
  C5. For an assignment of slots of a well-formed puzzle, \<^verbatim>\<open>consistent\<close> returns \<^verbatim>\<open>False\<close>
  iff (a) some assigned word has not the length of its slot, or (b) two different assigned
  slots carry the same word, or (c) two assigned slots that are neighbors carry different
  letters at the indices of their overlap. Only assigned slots occur in the three
  conditions.
\<close>

theorem consistent_False_iff:
  assumes wf: "wf_crossword cw"
    and dk: "distinct (map fst a)"
    and sub: "set (map fst a) \<subseteq> set (variables cw)"
  shows "consistent cw a =
     Inr (\<not> ((\<exists>var word. map_of a var = Some word \<and> length word \<noteq> var_length var) \<or>
              (\<exists>x y w. x \<noteq> y \<and> map_of a x = Some w \<and> map_of a y = Some w) \<or>
              (\<exists>x y wx wy i j. map_of a x = Some wx \<and> map_of a y = Some wy \<and>
                  y \<in> set (neighbors cw x) \<and> overlaps cw (x, y) = Some (Some (i, j)) \<and>
                  wx ! i \<noteq> wy ! j)))"
    (is "_ = Inr (\<not> (?A \<or> ?B \<or> ?C))")
proof -
  have mem: "map_of a v = Some w \<longleftrightarrow> (v, w) \<in> set a" for v w
    using dk by simp
  have A: "lengths_ok a \<longleftrightarrow> \<not> ?A"
    unfolding lengths_ok_iff mem by auto
  have B: "distinct (map snd a) \<longleftrightarrow> \<not> ?B"
    using dk by (rule distinct_values_iff)
  show ?thesis
  proof (cases "lengths_ok a")
    case False
    with A show ?thesis by (simp add: consistent_def)
  next
    case len: True
    show ?thesis
    proof (cases "distinct (map snd a)")
      case False
      with B len show ?thesis by (simp add: consistent_def Let_def remdups_length_iff)
    next
      case True
      have pre: "\<forall>(var, word) \<in> set a. length word = var_length var \<and>
           (\<forall>nb \<in> set (neighbors cw var). \<forall>nword. map_of a nb = Some nword \<longrightarrow>
              length nword = var_length nb \<and>
              (\<exists>i j. overlaps cw (var, nb) = Some (Some (i, j)) \<and>
                     i < var_length var \<and> j < var_length nb))"
      proof (intro ballI, clarify, intro conjI ballI allI impI)
        fix var word
        assume vw: "(var, word) \<in> set a"
        with len show "length word = var_length var" unfolding lengths_ok_iff by auto
        from vw sub have var: "var \<in> set (variables cw)" by force
        fix nb nword
        assume nb: "nb \<in> set (neighbors cw var)" and nw: "map_of a nb = Some nword"
        from nw len show "length nword = var_length nb" unfolding lengths_ok_iff mem by auto
        from wf_crosswordD(4) [OF wf var nb]
        show "\<exists>i j. overlaps cw (var, nb) = Some (Some (i, j)) \<and>
                     i < var_length var \<and> j < var_length nb" by blast
      qed
      have "consistent cw a = overlaps_agree cw a a"
        using len True by (simp add: consistent_def Let_def remdups_length_iff)
      also have "\<dots> = Inr (\<forall>(var, word) \<in> set a. \<forall>nb \<in> set (neighbors cw var). \<forall>nword i j.
                  map_of a nb = Some nword \<and> overlaps cw (var, nb) = Some (Some (i, j)) \<longrightarrow>
                  word ! i = nword ! j)"
        using pre by (rule overlaps_agree_total)
      also have "(\<forall>(var, word) \<in> set a. \<forall>nb \<in> set (neighbors cw var). \<forall>nword i j.
                  map_of a nb = Some nword \<and> overlaps cw (var, nb) = Some (Some (i, j)) \<longrightarrow>
                  word ! i = nword ! j) \<longleftrightarrow> \<not> ?C"
        unfolding mem by fast
      finally show ?thesis using A B len True by simp
    qed
  qed
qed

theorem consistent_False_iff_witness:
  "wf_crossword (ex_crossword ex_words) \<and>
   distinct (map fst [(ex_across, ''cat''), (ex_down, ''dodo'')]) \<and>
   set (map fst [(ex_across, ''cat''), (ex_down, ''dodo'')])
     \<subseteq> set (variables (ex_crossword ex_words)) \<and>
   consistent (ex_crossword ex_words) [(ex_across, ''cat''), (ex_down, ''dodo'')] = Inr False \<and>
   ex_down \<in> set (neighbors (ex_crossword ex_words) ex_across) \<and>
   overlaps (ex_crossword ex_words) (ex_across, ex_down) = Some (Some (2, 1)) \<and>
   ''cat'' ! 2 \<noteq> ''dodo'' ! 1"
proof -
  let ?cw = "ex_crossword ex_words"
  let ?a = "[(ex_across, ''cat''), (ex_down, ''dodo'')]"
  have w: "wf_crossword ?cw" by code_simp
  have d: "distinct (map fst ?a)" by (simp add: ex_defs)
  have s: "set (map fst ?a) \<subseteq> set (variables ?cw)" by (simp add: ex_defs)
  from consistent_False_iff [OF w d s] have "consistent ?cw ?a = Inr False"
    by (auto simp: ex_defs)
  with w d s show ?thesis by (simp add: ex_defs)
qed

section \<open>The backtracking search\<close>

lemma checked_empty: "checked cw []"
  by (simp add: checked_def consistent_def)

lemma checked_update:
  assumes "checked cw a" "var \<in> set (variables cw)"
    and "consistent cw (AList.update var val a) = Inr True"
  shows "checked cw (AList.update var val a)"
  using assms unfolding checked_def
  by (auto simp: distinct_update update_keys)

lemma backtrack_checked:
  "checked cw a \<Longrightarrow> backtrack cw doms a = Inr (Some r) \<Longrightarrow>
     checked cw r \<and> length r = length (variables cw)"
  and try_values_checked:
  "checked cw a \<Longrightarrow> var \<in> set (variables cw) \<Longrightarrow>
   try_values cw doms a var vals = Inr (Some r) \<Longrightarrow>
     checked cw r \<and> length r = length (variables cw)"
proof (induction cw doms a and cw doms a var vals arbitrary: r and r
       rule: backtrack_try_values.induct)
  case (1 cw doms a)
  show ?case
  proof (cases "assignment_complete cw a")
    case True
    with "1.prems" show ?thesis by (simp add: backtrack.simps assignment_complete_def)
  next
    case False
    with "1.prems"(2) obtain var where sel: "select_unassigned_variable cw doms a = Inr var"
      by (cases "select_unassigned_variable cw doms a") (auto simp: backtrack.simps)
    with False "1.prems"(2) obtain vals where ord: "order_domain_values cw doms var a = Inr vals"
      by (cases "order_domain_values cw doms var a") (auto simp: backtrack.simps)
    from False sel ord "1.prems"(2) have tv: "try_values cw doms a var vals = Inr (Some r)"
      by (simp add: backtrack.simps)
    from select_unassigned_variable_in [OF sel] have "var \<in> set (variables cw)"
      by (simp add: unassigned_variables_def)
    with "1.IH" [OF False sel ord "1.prems"(1) _ tv] show ?thesis by simp
  qed
next
  case (2 cw doms a var)
  then show ?case by simp
next
  case (3 cw doms a var val rest)
  let ?new = "AList.update var val a"
  from "3.prems"(3) obtain ok where ok: "consistent cw ?new = Inr ok"
    by (cases "consistent cw ?new") (auto simp: Let_def)
  show ?case
  proof (cases ok)
    case False
    with ok "3.prems"(3) have "try_values cw doms a var rest = Inr (Some r)"
      by (simp add: Let_def)
    with "3.IH"(3) [OF refl ok False "3.prems"(1,2)] show ?thesis by simp
  next
    case True
    with ok "3.prems"(1,2) have new: "checked cw ?new" by (simp add: checked_update)
    from "3.prems"(3) ok True obtain res where res: "backtrack cw doms ?new = Inr res"
      by (cases "backtrack cw doms ?new") (auto simp: Let_def)
    show ?thesis
    proof (cases res)
      case None
      with ok True res "3.prems"(3) have "try_values cw doms a var rest = Inr (Some r)"
        by (simp add: Let_def)
      with "3.IH"(2) [OF refl ok True] res None "3.prems"(1,2) show ?thesis by simp
    next
      case (Some r')
      with ok True res "3.prems"(3) have "r' = r" by (simp add: Let_def)
      with "3.IH"(1) [OF refl ok True new] res Some show ?thesis by simp
    qed
  qed
qed

lemma complete_keys:
  assumes "distinct (map fst r)" "set (map fst r) \<subseteq> set (variables cw)"
    and "length r = length (variables cw)"
  shows "set (map fst r) = set (variables cw)"
proof (rule card_subset_eq)
  show "finite (set (variables cw))" by simp
  show "set (map fst r) \<subseteq> set (variables cw)" by (rule assms(2))
  have "card (set (map fst r)) = length r"
    using assms(1) distinct_card [of "map fst r"] by simp
  moreover have "card (set (variables cw)) \<le> length (variables cw)" by (rule card_length)
  moreover have "card (set (map fst r)) \<le> card (set (variables cw))"
    using assms(2) by (simp add: card_mono)
  ultimately show "card (set (map fst r)) = card (set (variables cw))"
    using assms(3) by simp
qed

text \<open>
  C1. When \<^verbatim>\<open>solve\<close> returns an assignment (not \<^verbatim>\<open>None\<close>), the assignment has exactly one
  word for every slot of the puzzle and no other key, its words are pairwise distinct,
  every word has the length of its slot, and for every slot \<open>x\<close> and every neighbor \<open>y\<close> of
  \<open>x\<close> in the puzzle with overlap \<open>(i, j)\<close>, the word of \<open>x\<close> has at index \<open>i\<close> the letter the
  word of \<open>y\<close> has at index \<open>j\<close>.
\<close>

theorem solve_assignment_valid:
  assumes "solve cw doms = Inr (Some a, doms')"
  shows "distinct (map fst a) \<and> set (map fst a) = set (variables cw) \<and>
         distinct (map snd a) \<and>
         (\<forall>(var, word) \<in> set a. length word = var_length var) \<and>
         (\<forall>x \<in> set (variables cw). \<forall>y \<in> set (neighbors cw x). \<forall>i j.
            y \<in> set (variables cw) \<and> overlaps cw (x, y) = Some (Some (i, j)) \<longrightarrow>
            (\<exists>wx wy. map_of a x = Some wx \<and> map_of a y = Some wy \<and>
               i < length wx \<and> j < length wy \<and> wx ! i = wy ! j))"
proof -
  from solve_Inr [OF assms] have "backtrack cw doms' [] = Inr (Some a)" by blast
  with backtrack_checked [OF checked_empty] have
    ch: "checked cw a" and len: "length a = length (variables cw)" by blast+
  from ch have dk: "distinct (map fst a)" and sub: "set (map fst a) \<subseteq> set (variables cw)"
    and con: "consistent cw a = Inr True"
    unfolding checked_def by simp_all
  from dk sub len have keys: "set (map fst a) = set (variables cw)" by (rule complete_keys)
  note c = consistent_True [OF con]
  have mem: "map_of a v = Some w \<longleftrightarrow> (v, w) \<in> set a" for v w
    using dk by simp
  have assigned: "\<exists>w. map_of a v = Some w" if "v \<in> set (variables cw)" for v
  proof -
    from that keys have "v \<in> fst ` set a" by simp
    then show ?thesis unfolding mem by force
  qed
  have ov: "\<exists>wx wy. map_of a x = Some wx \<and> map_of a y = Some wy \<and>
               i < length wx \<and> j < length wy \<and> wx ! i = wy ! j"
    if "x \<in> set (variables cw)" "y \<in> set (neighbors cw x)"
      "y \<in> set (variables cw) \<and> overlaps cw (x, y) = Some (Some (i, j))" for x y i j
  proof -
    from assigned that obtain wx wy where
      wx: "map_of a x = Some wx" and wy: "map_of a y = Some wy" by blast
    from wx have "(x, wx) \<in> set a" by (simp add: mem)
    with c(3) have "neighbors_agree cw a x wx (neighbors cw x) = Inr True"
      by (rule overlaps_agree_True)
    from neighbors_agree_True [OF this that(2) wy] that(3) wx wy
    show ?thesis by simp
  qed
  from dk keys c(1,2) ov show ?thesis
    unfolding lengths_ok_iff by blast
qed

theorem solve_assignment_valid_witness:
  "solve (ex_crossword ex_words) (init_domains (ex_crossword ex_words))
     = Inr (Some [(ex_across, ''cat''), (ex_down, ''stem'')],
            [(ex_across, [''cat'']), (ex_down, [''stem''])]) \<and>
   set (map fst [(ex_across, ''cat''), (ex_down, ''stem'')])
     = set (variables (ex_crossword ex_words)) \<and>
   distinct (map snd [(ex_across, ''cat''), (ex_down, ''stem'')])"
proof -
  have s: "solve (ex_crossword ex_words) (init_domains (ex_crossword ex_words))
     = Inr (Some [(ex_across, ''cat''), (ex_down, ''stem'')],
            [(ex_across, [''cat'']), (ex_down, [''stem''])])"
    by code_simp
  from solve_assignment_valid [OF s] s show ?thesis by simp
qed

section \<open>The top-level solve\<close>

lemma ac3_loop_False_empty:
  "ac3_loop cw doms queue = Inr (False, doms') \<Longrightarrow> \<exists>x. map_of doms' x = Some []"
proof (induction cw doms queue rule: ac3_loop.induct)
  case (1 cw doms)
  then show ?case by simp
next
  case (2 cw doms x y queue)
  from "2.prems" obtain revised doms1 where
    rev: "revise cw doms x y = Inr (revised, doms1)"
    by (cases "revise cw doms x y") auto
  show ?case
  proof (cases revised)
    case False
    with rev "2.prems" have "ac3_loop cw doms1 queue = Inr (False, doms')" by simp
    with "2.IH"(2) [OF rev refl False] show ?thesis by simp
  next
    case True
    with rev have "revise cw doms x y = Inr (True, doms1)" by simp
    then obtain dx where dx: "map_of doms1 x = Some dx"
      using revise_True_domain by blast
    show ?thesis
    proof (cases "length dx = 0")
      case empty: True
      with rev True dx "2.prems" have "doms' = doms1" by simp
      with dx empty show ?thesis by auto
    next
      case nonempty: False
      with rev True dx "2.prems" have
        "ac3_loop cw doms1 (queue @ map (\<lambda>z. (z, x)) (removeAll y (neighbors cw x)))
           = Inr (False, doms')" by simp
      with "2.IH"(1) [OF rev refl True dx nonempty] show ?thesis by simp
    qed
  qed
qed

lemma enforce_node_consistency_keys:
  "map fst (enforce_node_consistency doms) = map fst doms"
  by (induction doms) (auto simp: enforce_node_consistency_def Let_def)

lemma backtrack_empty_domain:
  assumes keys: "set (map fst doms) = set (variables cw)"
    and empty: "map_of doms x = Some []"
  shows "backtrack cw doms [] = Inr None \<and> backtrack_calls cw doms [] = 1 \<and>
         (\<exists>var. select_unassigned_variable cw doms [] = Inr var \<and>
                map_of doms var = Some [] \<and>
                order_domain_values cw doms var [] = Inr [])"
proof -
  from empty have "x \<in> fst ` set doms" by (auto dest: map_of_SomeD intro: rev_image_eqI)
  with keys have x: "x \<in> set (variables cw)" by simp
  have us: "unassigned_variables cw [] = variables cw"
    by (simp add: unassigned_variables_def)
  from x us have ne: "unassigned_variables cw [] \<noteq> []" by auto
  have "\<forall>v \<in> set (unassigned_variables cw []). map_of doms v \<noteq> None"
  proof
    fix v assume "v \<in> set (unassigned_variables cw [])"
    with us keys have "v \<in> fst ` set doms" by simp
    then show "map_of doms v \<noteq> None" by (simp add: map_of_eq_None_iff)
  qed
  from select_unassigned_variable_first [OF ne this] obtain var where
    sel: "select_unassigned_variable cw doms [] = Inr var"
    and fm: "first_min (key_of cw doms var, var)
               (map (\<lambda>v. (key_of cw doms v, v)) (unassigned_variables cw []))"
    by blast
  from x us have "(key_of cw doms x, x)
      \<in> set (map (\<lambda>v. (key_of cw doms v, v)) (unassigned_variables cw []))" by simp
  from first_min_least [OF fm this]
  have least: "\<not> tuple_less (key_of cw doms x) (key_of cw doms var)" by simp
  from first_min_in [OF fm] us keys have "var \<in> fst ` set doms" by auto
  then obtain dv where dv: "map_of doms var = Some dv"
    by (cases "map_of doms var") (auto simp: map_of_eq_None_iff)
  from least empty dv have "dv = []"
    by (auto simp: key_of_def tuple_less_def)
  with dv have ord: "order_domain_values cw doms var [] = Inr []"
    by (simp add: order_domain_values_def)
  from x have inc: "\<not> assignment_complete cw []"
    by (auto simp: assignment_complete_def)
  from inc sel ord have "backtrack cw doms [] = Inr None \<and> backtrack_calls cw doms [] = 1"
    by (simp add: backtrack.simps backtrack_calls.simps)
  with sel dv \<open>dv = []\<close> ord show ?thesis by simp
qed

text \<open>
  C2 (as amended). \<^verbatim>\<open>solve\<close> runs \<^verbatim>\<open>enforce_node_consistency\<close>, then \<^verbatim>\<open>ac3\<close> over all arcs.
  When \<^verbatim>\<open>ac3\<close> returns \<^verbatim>\<open>False\<close> (the store being keyed by the slots of the puzzle),
  \<^verbatim>\<open>solve\<close> returns \<^verbatim>\<open>None\<close>. \<^verbatim>\<open>backtrack\<close> is still invoked, exactly once, on the empty
  assignment: \<^verbatim>\<open>select_unassigned_variable\<close> returns a slot whose domain is empty,
  \<^verbatim>\<open>order_domain_values\<close> returns the empty list for it, so no value is tried and there is
  no recursive call.
\<close>

theorem solve_ac3_failure:
  assumes "set (map fst doms) = set (variables cw)"
    and "ac3 cw (enforce_node_consistency doms) None = Inr (False, doms2)"
  shows "solve cw doms = Inr (None, doms2) \<and> solve_backtrack_calls cw doms = 1 \<and>
         (\<exists>var. select_unassigned_variable cw doms2 [] = Inr var \<and>
                map_of doms2 var = Some [] \<and>
                order_domain_values cw doms2 var [] = Inr [])"
proof -
  from assms(2) have sh: "shrinks doms2 (enforce_node_consistency doms)"
    unfolding ac3_def by (simp add: ac3_loop_shrinks)
  then have "map fst doms2 = map fst doms"
    unfolding shrinks_def by (simp add: enforce_node_consistency_keys)
  with assms(1) have keys: "set (map fst doms2) = set (variables cw)" by simp
  from assms(2) obtain x where "map_of doms2 x = Some []"
    unfolding ac3_def using ac3_loop_False_empty by blast
  with keys have bt: "backtrack cw doms2 [] = Inr None \<and> backtrack_calls cw doms2 [] = 1 \<and>
         (\<exists>var. select_unassigned_variable cw doms2 [] = Inr var \<and>
                map_of doms2 var = Some [] \<and>
                order_domain_values cw doms2 var [] = Inr [])"
    by (rule backtrack_empty_domain)
  from bt assms(2) have "solve cw doms = Inr (None, doms2) \<and> solve_backtrack_calls cw doms = 1"
    by (simp add: solve_def solve_backtrack_calls_def)
  with bt show ?thesis by simp
qed

theorem solve_ac3_failure_witness:
  "set (map fst (init_domains (ex_crossword [''dog'', ''tart''])))
     = set (variables (ex_crossword [''dog'', ''tart''])) \<and>
   ac3 (ex_crossword [''dog'', ''tart''])
     (enforce_node_consistency (init_domains (ex_crossword [''dog'', ''tart'']))) None
     = Inr (False, [(ex_across, []), (ex_down, [''tart''])]) \<and>
   solve (ex_crossword [''dog'', ''tart'']) (init_domains (ex_crossword [''dog'', ''tart'']))
     = Inr (None, [(ex_across, []), (ex_down, [''tart''])]) \<and>
   select_unassigned_variable (ex_crossword [''dog'', ''tart''])
     [(ex_across, []), (ex_down, [''tart''])] [] = Inr ex_across \<and>
   order_domain_values (ex_crossword [''dog'', ''tart''])
     [(ex_across, []), (ex_down, [''tart''])] ex_across [] = Inr []"
proof -
  let ?cw = "ex_crossword [''dog'', ''tart'']"
  have k: "set (map fst (init_domains ?cw)) = set (variables ?cw)"
    by (simp add: init_domains_def ex_defs)
  have a: "ac3 ?cw (enforce_node_consistency (init_domains ?cw)) None
             = Inr (False, [(ex_across, []), (ex_down, [''tart''])])"
    by code_simp
  have s: "select_unassigned_variable ?cw [(ex_across, []), (ex_down, [''tart''])] []
             = Inr ex_across"
    by code_simp
  from solve_ac3_failure [OF k a] k a s show ?thesis by auto
qed

text \<open>
  The claim C2 as stated fails: on the puzzle of the two crossing slots with the dictionary
  \<open>dog\<close>, \<open>tart\<close>, \<^verbatim>\<open>ac3\<close> returns \<^verbatim>\<open>False\<close> and \<^verbatim>\<open>solve\<close> invokes \<^verbatim>\<open>backtrack\<close> all the same.
\<close>

theorem solve_skips_backtrack_counterexample:
  "ac3 (ex_crossword [''dog'', ''tart''])
     (enforce_node_consistency (init_domains (ex_crossword [''dog'', ''tart'']))) None
     = Inr (False, [(ex_across, []), (ex_down, [''tart''])]) \<and>
   solve_backtrack_calls (ex_crossword [''dog'', ''tart''])
     (init_domains (ex_crossword [''dog'', ''tart''])) = 1"
  by code_simp

section \<open>The order of the search\<close>








end
